theory Spec2Isabelle
  imports Complex_Main "HOL-Library.Sublist" "HOL-Library.Multiset"
begin

section \<open>Numbers\<close>

text \<open>
  The times of a profile are JavaScript numbers. They are modelled by their values: a
  finite number is the real it denotes, and the three values that are not finite are
  kept apart, with the arithmetic IEEE 754 gives them. Rounding, overflow and the sign
  of zero are not modelled: a finite result is the exact one, and a division by zero
  is a division by +0. As the addition of the code rounds, it is not associative:
  no law of \<open>+\<close> is made available for these numbers, and what is proved of a sum
  is proved of the additions in the order in which the code makes them.
\<close>

datatype jsnum = Number real | Infinity | NegInfinity | NaN

fun jsadd :: "jsnum \<Rightarrow> jsnum \<Rightarrow> jsnum" where
  "jsadd NaN _ = NaN"
| "jsadd _ NaN = NaN"
| "jsadd Infinity NegInfinity = NaN"
| "jsadd NegInfinity Infinity = NaN"
| "jsadd Infinity _ = Infinity"
| "jsadd _ Infinity = Infinity"
| "jsadd NegInfinity _ = NegInfinity"
| "jsadd _ NegInfinity = NegInfinity"
| "jsadd (Number a) (Number b) = Number (a + b)"

fun jsneg :: "jsnum \<Rightarrow> jsnum" where
  "jsneg (Number a) = Number (- a)"
| "jsneg Infinity = NegInfinity"
| "jsneg NegInfinity = Infinity"
| "jsneg NaN = NaN"

fun jssign :: "real \<Rightarrow> jsnum \<Rightarrow> jsnum" where
  "jssign a x = (if 0 < a then x else if a < 0 then jsneg x else NaN)"

fun jsmul :: "jsnum \<Rightarrow> jsnum \<Rightarrow> jsnum" where
  "jsmul NaN _ = NaN"
| "jsmul _ NaN = NaN"
| "jsmul (Number a) (Number b) = Number (a * b)"
| "jsmul (Number a) x = jssign a x"
| "jsmul x (Number b) = jssign b x"
| "jsmul Infinity x = x"
| "jsmul NegInfinity x = jsneg x"

fun jsdiv :: "jsnum \<Rightarrow> jsnum \<Rightarrow> jsnum" where
  "jsdiv NaN _ = NaN"
| "jsdiv _ NaN = NaN"
| "jsdiv (Number a) (Number b) = (if b \<noteq> 0 then Number (a / b) else jssign a Infinity)"
| "jsdiv (Number a) _ = Number 0"
| "jsdiv x (Number b) = (if 0 \<le> b then x else jsneg x)"
| "jsdiv _ _ = NaN"

instantiation jsnum :: "{zero, plus, minus, times, inverse}"
begin

definition zero_jsnum :: jsnum where
  "zero_jsnum = Number 0"

definition plus_jsnum :: "jsnum \<Rightarrow> jsnum \<Rightarrow> jsnum" where
  "plus_jsnum = jsadd"

definition minus_jsnum :: "jsnum \<Rightarrow> jsnum \<Rightarrow> jsnum" where
  "minus_jsnum a b = jsadd a (jsneg b)"

definition times_jsnum :: "jsnum \<Rightarrow> jsnum \<Rightarrow> jsnum" where
  "times_jsnum = jsmul"

definition inverse_jsnum :: "jsnum \<Rightarrow> jsnum" where
  "inverse_jsnum = jsdiv (Number 1)"

definition divide_jsnum :: "jsnum \<Rightarrow> jsnum \<Rightarrow> jsnum" where
  "divide_jsnum = jsdiv"

instance ..

end

definition isFinite :: "jsnum \<Rightarrow> bool" where
  "isFinite x = (case x of Number _ \<Rightarrow> True | _ \<Rightarrow> False)"

text \<open>A hit count is an integer of the profile; as a number it is itself.\<close>

definition toNumber :: "int \<Rightarrow> jsnum" where
  "toNumber h = Number (of_int h)"

section \<open>Strings\<close>

text \<open>The decimal rendering of an integer, as a template literal writes it.\<close>

definition digit :: "nat \<Rightarrow> char" where
  "digit n = ''0123456789'' ! (n mod 10)"

fun decimal :: "nat \<Rightarrow> string" where
  "decimal n = (if n < 10 then [digit n] else decimal (n div 10) @ [digit (n mod 10)])"

definition toString :: "int \<Rightarrow> string" where
  "toString i = (if i < 0 then CHR ''-'' # decimal (nat (- i)) else decimal (nat i))"

section \<open>Profile nodes (profile\_node.js)\<close>

record CallFrame =
  functionName :: string
  scriptId :: string
  url :: string
  lineNumber :: int
  columnNumber :: int

text \<open>
  A node as the parsed profile has it, before any \<open>ProfileNode\<close> is made of it:
  \<open>children\<close>, \<open>positionTicks\<close> and \<open>deoptReason\<close> may be absent.
\<close>

record NodeObject =
  obj_id :: nat
  obj_callFrame :: CallFrame
  obj_hitCount :: int
  obj_children :: "nat list option"
  obj_positionTicks :: "(int \<times> int) list option"
  obj_deoptReason :: "string option"

text \<open>
  The fields of a \<open>ProfileNode\<close> but its children. \<open>depth\<close>, \<open>parent\<close> and \<open>UID\<close>
  are the properties that \<open>translatedRoot\<close> and \<open>remainingNodeInfos\<close> add to a node
  of the translated tree; \<open>None\<close> is a property that is not set (or is null). A
  reference to a node of the translated tree is the path to it from the root: the
  list of child indices.
\<close>

record NodeFields =
  nid :: nat
  callFrame :: CallFrame
  hitCount :: int
  positionTicks :: "(int \<times> int) list"
  deoptReason :: "string option"
  selfTime :: jsnum
  totalTime :: jsnum
  callUID :: string
  depth :: "int option"
  parent :: "nat list option"
  UID :: "nat option"

text \<open>
  A node of the flat list: its children are node ids. The field is optional, for
  \<open>translatedRoot\<close> tests it before it reads it.
\<close>

record ProfileNode = NodeFields +
  children :: "nat list option"

text \<open>
  A node of the translated tree, and a bottom-up node: its children are nodes.
\<close>

datatype TreeNode = TreeNode (fieldsOf: NodeFields) (treeChildren: "TreeNode list")

definition makeCallUID :: "CallFrame \<Rightarrow> string" where
  "makeCallUID cf = functionName cf @ ''@'' @ scriptId cf @ '':'' @ toString (lineNumber cf)"

text \<open>The constructor, up to the children, which each kind of node adds.\<close>

definition newFields ::
  "nat \<Rightarrow> CallFrame \<Rightarrow> int \<Rightarrow> (int \<times> int) list \<Rightarrow> string option \<Rightarrow> NodeFields" where
  "newFields i cf h pt dr =
     \<lparr>nid = i, callFrame = cf, hitCount = h, positionTicks = pt, deoptReason = dr,
      selfTime = 0, totalTime = 0, callUID = makeCallUID cf,
      depth = None, parent = None, UID = None\<rparr>"

definition ProfileNode_createFromObject :: "NodeObject \<Rightarrow> ProfileNode" where
  "ProfileNode_createFromObject obj =
     NodeFields.extend
       (newFields (obj_id obj) (obj_callFrame obj) (obj_hitCount obj)
          (case obj_positionTicks obj of None \<Rightarrow> [] | Some pt \<Rightarrow> pt) (obj_deoptReason obj))
       (ProfileNode.fields (Some (case obj_children obj of None \<Rightarrow> [] | Some cs \<Rightarrow> cs)))"

definition cloneWithoutChildren :: "'a NodeFields_scheme \<Rightarrow> TreeNode" where
  "cloneWithoutChildren node =
     TreeNode
       ((newFields (nid node) (callFrame node) (hitCount node) (positionTicks node)
           (deoptReason node))
          \<lparr>selfTime := selfTime node, totalTime := totalTime node\<rparr>)
       []"

definition clone :: "TreeNode \<Rightarrow> TreeNode" where
  "clone node =
     TreeNode
       ((newFields (nid (fieldsOf node)) (callFrame (fieldsOf node)) (hitCount (fieldsOf node))
           (positionTicks (fieldsOf node)) (deoptReason (fieldsOf node)))
          \<lparr>selfTime := selfTime (fieldsOf node), totalTime := totalTime (fieldsOf node)\<rparr>)
       (treeChildren node)"

definition isNativeNode :: "'a NodeFields_scheme \<Rightarrow> bool" where
  "isNativeNode node = (url (callFrame node) \<noteq> [] \<and> prefix ''native '' (url (callFrame node)))"

section \<open>Profiles (profile.js)\<close>

record ProfileObject =
  obj_nodes :: "NodeObject list"
  obj_startTime :: jsnum
  obj_endTime :: jsnum
  obj_samples :: "nat list"
  obj_timeDeltas :: "int list"

text \<open>
  \<open>idToNodeMap\<close> holds references to the nodes of \<open>nodes\<close>: a node is referred to by
  its index in the list.
\<close>

record Profile =
  nodes :: "ProfileNode list"
  startTime :: jsnum
  endTime :: jsnum
  samples :: "nat list"
  timeDeltas :: "int list"
  idToNodeMap :: "nat \<rightharpoonup> nat"
  samplingInterval :: jsnum

definition createIdToNodeMap :: "Profile \<Rightarrow> Profile" where
  "createIdToNodeMap p =
     p\<lparr>idToNodeMap := fold (\<lambda>(i, node) m. m(nid node \<mapsto> i)) (enumerate 0 (nodes p)) (idToNodeMap p)\<rparr>"

definition determineSamplingInterval :: "Profile \<Rightarrow> Profile" where
  "determineSamplingInterval p =
     (let totalHitCount = fold (\<lambda>node acc. acc + hitCount node) (nodes p) 0
      in p\<lparr>samplingInterval := (endTime p - startTime p) / toNumber totalHitCount\<rparr>)"

definition assignInitialSelfTimes :: "Profile \<Rightarrow> Profile" where
  "assignInitialSelfTimes p =
     p\<lparr>nodes := map (\<lambda>node. node\<lparr>selfTime := (toNumber (hitCount node) * samplingInterval p) / Number 1000\<rparr>)
                   (nodes p)\<rparr>"

definition nameAnonymousFunctions :: "Profile \<Rightarrow> Profile" where
  "nameAnonymousFunctions p =
     p\<lparr>nodes := map (\<lambda>node. if functionName (callFrame node) = []
                            then node\<lparr>callFrame := (callFrame node)\<lparr>functionName := ''(anonymous function)''\<rparr>\<rparr>
                            else node)
                   (nodes p)\<rparr>"

text \<open>
  The constructor. \<open>samplingInterval\<close> is not set before \<open>determineSamplingInterval\<close>
  writes it; the number an unset property reads as is \<open>NaN\<close>.
\<close>

definition Profile_new ::
  "ProfileNode list \<Rightarrow> jsnum \<Rightarrow> jsnum \<Rightarrow> nat list \<Rightarrow> int list \<Rightarrow> Profile" where
  "Profile_new ns st en sm td =
     nameAnonymousFunctions (assignInitialSelfTimes (determineSamplingInterval (createIdToNodeMap
       \<lparr>nodes = ns, startTime = st, endTime = en, samples = sm, timeDeltas = td,
        idToNodeMap = Map.empty, samplingInterval = NaN\<rparr>)))"

definition Profile_createFromObject :: "ProfileObject \<Rightarrow> Profile" where
  "Profile_createFromObject obj =
     Profile_new (map ProfileNode_createFromObject (obj_nodes obj))
       (obj_startTime obj) (obj_endTime obj) (obj_samples obj) (obj_timeDeltas obj)"

section \<open>The translated tree\<close>

text \<open>
  A reference to a node of the translated tree is its path from the root. \<open>nodeAt\<close>
  reads through a reference and \<open>modifyAt\<close> writes through it. A path that leaves the
  tree refers to nothing: \<open>modifyAt\<close> writes nothing there, and \<open>nodeAt\<close> gives a node
  without children, so that nothing is reached through it. The code holds no such
  reference.
\<close>

fun nodeAt :: "TreeNode \<Rightarrow> nat list \<Rightarrow> TreeNode" where
  "nodeAt node [] = node"
| "nodeAt (TreeNode d cs) (j # path) =
     (if j < length cs then nodeAt (cs ! j) path else TreeNode d [])"

fun modifyAt :: "(TreeNode \<Rightarrow> TreeNode) \<Rightarrow> nat list \<Rightarrow> TreeNode \<Rightarrow> TreeNode" where
  "modifyAt f [] node = f node"
| "modifyAt f (j # path) (TreeNode d cs) =
     (if j < length cs then TreeNode d (cs[j := modifyAt f path (cs ! j)]) else TreeNode d cs)"

fun validPath :: "TreeNode \<Rightarrow> nat list \<Rightarrow> bool" where
  "validPath node [] = True"
| "validPath (TreeNode d cs) (j # path) = (j < length cs \<and> validPath (cs ! j) path)"

definition updateFields :: "(NodeFields \<Rightarrow> NodeFields) \<Rightarrow> TreeNode \<Rightarrow> TreeNode" where
  "updateFields g node = TreeNode (g (fieldsOf node)) (treeChildren node)"

definition pushChild :: "TreeNode \<Rightarrow> TreeNode \<Rightarrow> TreeNode" where
  "pushChild child node = TreeNode (fieldsOf node) (treeChildren node @ [child])"

datatype error = TypeError

definition childIds :: "ProfileNode \<Rightarrow> nat list" where
  "childIds node = (case children node of None \<Rightarrow> [] | Some cs \<Rightarrow> cs)"

text \<open>
  The loop of \<open>translatedRoot\<close> over \<open>pairs\<close>; \<open>translateStep\<close> is its body for a source node
  that is there. The top of the stack is the head of the
  list. A pair holds the reference to the parent in the translated tree and what
  \<open>idToNodeMap\<close> gave for the source node: the index of the node in \<open>nodes\<close>, or
  nothing. The loop may write a node of the flat list (its \<open>children\<close>, when the field
  is not set), so the profile is part of its state. Reading \<open>children\<close> of a source
  node that is not there is a \<open>TypeError\<close>. A loop that does not end has no value.
\<close>

definition translateStep ::
  "Profile \<Rightarrow> TreeNode \<Rightarrow> nat list \<Rightarrow> nat \<Rightarrow> (nat list \<times> nat option) list
     \<Rightarrow> Profile \<times> TreeNode \<times> (nat list \<times> nat option) list" where
  "translateStep p tree parentNode i rest =
     (let p1 = (if children (nodes p ! i) = None
                then p\<lparr>nodes := (nodes p)[i := (nodes p ! i)\<lparr>children := Some []\<rparr>]\<rparr>
                else p);
          sourceNode = nodes p1 ! i;
          targetNode = cloneWithoutChildren sourceNode;
          tree1 = (if \<not> isNativeNode sourceNode
                   then modifyAt (pushChild targetNode) parentNode tree
                   else modifyAt (updateFields (\<lambda>d. d\<lparr>selfTime := selfTime d + selfTime (fieldsOf targetNode)\<rparr>))
                          parentNode tree);
          parentNode1 = (if \<not> isNativeNode sourceNode
                         then parentNode @ [length (treeChildren (nodeAt tree parentNode))]
                         else parentNode)
      in (p1, tree1,
          rev (map (\<lambda>childId. (parentNode1, idToNodeMap p1 childId)) (childIds sourceNode)) @ rest))"

partial_function (option) translateLoop ::
  "Profile \<Rightarrow> TreeNode \<Rightarrow> (nat list \<times> nat option) list \<Rightarrow> (Profile \<times> (error + TreeNode)) option" where
  "translateLoop p tree pairs =
     (case pairs of
        [] \<Rightarrow> Some (p, Inr tree)
      | (parentNode, sourceNode) # rest \<Rightarrow>
          (case sourceNode of
             None \<Rightarrow> Some (p, Inl TypeError)
           | Some i \<Rightarrow>
               (case translateStep p tree parentNode i rest of
                  (p1, tree1, pairs1) \<Rightarrow> translateLoop p1 tree1 pairs1)))"

text \<open>The preliminary total times, bottom-up.\<close>

fun sumTotal :: "TreeNode \<Rightarrow> TreeNode" where
  "sumTotal (TreeNode d cs) =
     (let cs1 = map sumTotal cs
      in TreeNode (d\<lparr>totalTime := fold (\<lambda>child acc. acc + totalTime (fieldsOf child)) cs1 (selfTime d)\<rparr>) cs1)"

text \<open>
  The loop that assigns depths and parents. The top of the stack is the head of the
  list. The depth of a node whose parent has no depth would be \<open>NaN\<close>; \<open>None\<close> stands
  for it.
\<close>

fun treeSize :: "TreeNode \<Rightarrow> nat" where
  "treeSize (TreeNode d cs) = Suc (sum_list (map treeSize cs))"

definition assignChild ::
  "int option \<Rightarrow> nat list \<Rightarrow> nat \<Rightarrow> TreeNode \<times> nat list list \<Rightarrow> TreeNode \<times> nat list list" where
  "assignChild dep parentRef j = (\<lambda>(tree, stack).
     (let child = parentRef @ [j];
          tree1 = modifyAt (updateFields (\<lambda>d. d\<lparr>depth := dep, parent := Some parentRef\<rparr>)) child tree
      in (tree1, if treeChildren (nodeAt tree1 child) \<noteq> [] then child # stack else stack)))"

definition assignStep :: "TreeNode \<Rightarrow> nat list \<Rightarrow> nat list list \<Rightarrow> TreeNode \<times> nat list list" where
  "assignStep tree parentRef rest =
     (let dep = map_option (\<lambda>d. d + 1) (depth (fieldsOf (nodeAt tree parentRef)))
      in fold (assignChild dep parentRef) [0..<length (treeChildren (nodeAt tree parentRef))] (tree, rest))"


lemma nodeAt_append: "nodeAt node (path @ rest) = nodeAt (nodeAt node path) rest"
proof (induction path arbitrary: node)
  case Nil
  then show ?case by simp
next
  case (Cons j path)
  show ?case
  proof (cases node)
    case (TreeNode d cs)
    then show ?thesis using Cons by (cases rest) simp_all
  qed
qed

lemma nodeAt_child:
  "j < length (treeChildren (nodeAt node path)) \<Longrightarrow>
     nodeAt node (path @ [j]) = treeChildren (nodeAt node path) ! j"
  by (cases "nodeAt node path") (simp add: nodeAt_append)

lemma treeSize_children:
  "(\<Sum>j\<leftarrow>[0..<length (treeChildren node)]. treeSize (treeChildren node ! j)) < treeSize node"
proof (cases node)
  case (TreeNode d cs)
  have "map treeSize (map ((!) cs) [0..<length cs]) = map treeSize cs"
    by (simp only: map_nth)
  then have "map (\<lambda>j. treeSize (cs ! j)) [0..<length cs] = map treeSize cs"
    by (simp add: comp_def)
  then show ?thesis using TreeNode by simp
qed

lemma treeSize_modifyAt_updateFields:
  "treeSize (nodeAt (modifyAt (updateFields g) path node) ref) = treeSize (nodeAt node ref)"
proof (induction path arbitrary: node ref)
  case Nil
  show ?case
    by (cases node; cases ref) (simp_all add: updateFields_def)
next
  case (Cons j path)
  show ?case
  proof (cases node)
    case (TreeNode d cs)
    show ?thesis
    proof (cases "j < length cs")
      case False
      then show ?thesis using TreeNode by simp
    next
      case True
      have same: "treeSize (modifyAt (updateFields g) path (cs ! j)) = treeSize (cs ! j)"
        using Cons.IH [of "cs ! j" "[]"] by simp
      have "map treeSize (cs[j := modifyAt (updateFields g) path (cs ! j)]) = map treeSize cs"
        using same True by (simp add: map_update list_update_same_conv)
      then show ?thesis
        using TreeNode True Cons.IH
        by (cases ref) (simp_all add: nth_list_update)
    qed
  qed
qed

lemma fold_assignChild_size:
  "fold (assignChild dep parentRef) js (tree, stack) = (tree1, stack1) \<Longrightarrow>
     (\<forall>ref. treeSize (nodeAt tree1 ref) = treeSize (nodeAt tree ref))
     \<and> (\<Sum>ref\<leftarrow>stack1. treeSize (nodeAt tree1 ref))
         \<le> (\<Sum>j\<leftarrow>js. treeSize (nodeAt tree (parentRef @ [j]))) + (\<Sum>ref\<leftarrow>stack. treeSize (nodeAt tree ref))"
proof (induction js arbitrary: tree stack)
  case Nil
  then show ?case by simp
next
  case (Cons j js)
  obtain tree2 stack2 where step: "assignChild dep parentRef j (tree, stack) = (tree2, stack2)"
    by (cases "assignChild dep parentRef j (tree, stack)")
  have size2: "treeSize (nodeAt tree2 ref) = treeSize (nodeAt tree ref)" for ref
    using step by (auto simp: assignChild_def Let_def treeSize_modifyAt_updateFields)
  have stack2: "stack2 = (parentRef @ [j]) # stack \<or> stack2 = stack"
    using step by (auto simp: assignChild_def Let_def split: if_splits)
  have le2: "(\<Sum>ref\<leftarrow>stack2. treeSize (nodeAt tree2 ref))
      \<le> treeSize (nodeAt tree (parentRef @ [j])) + (\<Sum>ref\<leftarrow>stack. treeSize (nodeAt tree ref))"
    using stack2 by (auto simp: size2)
  from Cons.prems step have "fold (assignChild dep parentRef) js (tree2, stack2) = (tree1, stack1)"
    by simp
  note ih = Cons.IH [OF this]
  note size1 = ih [THEN conjunct1] and le1 = ih [THEN conjunct2]
  have "(\<Sum>ref\<leftarrow>stack1. treeSize (nodeAt tree1 ref))
      \<le> (\<Sum>j\<leftarrow>js. treeSize (nodeAt tree (parentRef @ [j])))
        + (treeSize (nodeAt tree (parentRef @ [j])) + (\<Sum>ref\<leftarrow>stack. treeSize (nodeAt tree ref)))"
    using le1 le2 unfolding size2 by linarith
  then show ?case
    using size1 by (simp add: size2)
qed

lemma assignStep_decreases:
  assumes "assignStep tree parentRef rest = (tree1, stack1)"
  shows "(\<Sum>ref\<leftarrow>stack1. treeSize (nodeAt tree1 ref))
           < (\<Sum>ref\<leftarrow>parentRef # rest. treeSize (nodeAt tree ref))"
proof -
  let ?n = "length (treeChildren (nodeAt tree parentRef))"
  have "fold (assignChild (map_option (\<lambda>d. d + 1) (depth (fieldsOf (nodeAt tree parentRef)))) parentRef)
          [0..<?n] (tree, rest) = (tree1, stack1)"
    using assms by (simp add: assignStep_def Let_def)
  from fold_assignChild_size [OF this]
  have "(\<Sum>ref\<leftarrow>stack1. treeSize (nodeAt tree1 ref))
      \<le> (\<Sum>j\<leftarrow>[0..<?n]. treeSize (nodeAt tree (parentRef @ [j]))) + (\<Sum>ref\<leftarrow>rest. treeSize (nodeAt tree ref))"
    by (rule conjunct2)
  moreover have "map (\<lambda>j. treeSize (nodeAt tree (parentRef @ [j]))) [0..<?n]
      = map (\<lambda>j. treeSize (treeChildren (nodeAt tree parentRef) ! j)) [0..<?n]"
    by (simp add: nodeAt_child)
  ultimately show ?thesis
    using treeSize_children [of "nodeAt tree parentRef"] by simp
qed

function assignLoop :: "TreeNode \<Rightarrow> nat list list \<Rightarrow> TreeNode" where
  "assignLoop tree stack =
     (case stack of
        [] \<Rightarrow> tree
      | parentRef # rest \<Rightarrow> (case assignStep tree parentRef rest of (tree1, stack1) \<Rightarrow> assignLoop tree1 stack1))"
  by pat_completeness auto
termination
proof (relation "measure (\<lambda>(tree, stack). \<Sum>ref\<leftarrow>stack. treeSize (nodeAt tree ref))")
  show "wf (measure (\<lambda>(tree, stack). \<Sum>ref\<leftarrow>stack. treeSize (nodeAt tree ref)))"
    by simp
next
  fix tree :: TreeNode and stack parentRef rest tree1 stack1
  assume stack: "stack = parentRef # rest" and "(tree1, stack1) = assignStep tree parentRef rest"
  then have "assignStep tree parentRef rest = (tree1, stack1)"
    by simp
  from assignStep_decreases [OF this]
  show "((tree1, stack1), tree, stack) \<in> measure (\<lambda>(tree, stack). \<Sum>ref\<leftarrow>stack. treeSize (nodeAt tree ref))"
    using stack by simp
qed

text \<open>
  The getter \<open>translatedRoot\<close>. Without a first node, or without the children of the
  first node, the read is a \<open>TypeError\<close>. The profile comes back with the result, as
  the loop may have written its nodes.
\<close>

definition translatedRoot :: "Profile \<Rightarrow> (Profile \<times> (error + TreeNode)) option" where
  "translatedRoot p =
     (case nodes p of
        [] \<Rightarrow> Some (p, Inl TypeError)
      | originalRoot # _ \<Rightarrow>
          (case children originalRoot of
             None \<Rightarrow> Some (p, Inl TypeError)
           | Some cs \<Rightarrow>
               (case translateLoop p (cloneWithoutChildren originalRoot)
                       (rev (map (\<lambda>childId. ([], idToNodeMap p childId)) cs)) of
                  None \<Rightarrow> None
                | Some (p1, Inl e) \<Rightarrow> Some (p1, Inl e)
                | Some (p1, Inr tree) \<Rightarrow>
                    Some (p1, Inr (assignLoop
                      (updateFields (\<lambda>d. d\<lparr>depth := Some (- 1), parent := None\<rparr>) (sumTotal tree))
                      [[]])))))"

section \<open>The bottom-up aggregation\<close>

text \<open>
  An entry of \<open>remainingNodeInfos\<close> refers to nodes of the translated tree. The state
  of the traversal holds the tree, on whose nodes it writes the \<open>UID\<close>s, the counter
  \<open>profileNodeUIDs\<close>, the visited sets (a set holds what \<open>UID\<close> is read as, set or
  not), the entries made so far, and \<open>profileNodeGroups\<close>. The code reads
  \<open>profileNodeGroups\<close> two entries at a time from the front, the parents and then the
  nodes, and writes two entries at a time at the back: the state keeps the pairs that
  are not read yet.
\<close>

record NodeInfo =
  ancestor :: "nat list"
  focusNode :: "nat list"
  totalAccountedFor :: bool

record Traversal =
  tree :: TreeNode
  profileNodeUIDs :: nat
  profileNodeGroups :: "(nat list list \<times> nat list list) list"
  visitedProfileNodesForCallUID :: "string \<rightharpoonup> nat option set"
  nodeInfos :: "NodeInfo list"

text \<open>The body of the inner loop, for one node of a group.\<close>

definition assignUID :: "nat list \<Rightarrow> Traversal \<Rightarrow> Traversal" where
  "assignUID profileNode s =
     (if UID (fieldsOf (nodeAt (tree s) profileNode)) = None
      then s\<lparr>profileNodeUIDs := profileNodeUIDs s + 1,
             tree := modifyAt (updateFields (\<lambda>d. d\<lparr>UID := Some (profileNodeUIDs s + 1)\<rparr>))
                       profileNode (tree s)\<rparr>
      else s)"

definition recordNode :: "nat list list \<Rightarrow> nat list \<Rightarrow> Traversal \<Rightarrow> Traversal" where
  "recordNode parentProfileNodes profileNode s =
     (let node = fieldsOf (nodeAt (tree s) profileNode)
      in if parent node \<noteq> None
         then (case visitedProfileNodesForCallUID s (callUID node) of
                 None \<Rightarrow>
                   s\<lparr>visitedProfileNodesForCallUID :=
                        (visitedProfileNodesForCallUID s)(callUID node \<mapsto> {UID node}),
                     nodeInfos := nodeInfos s @
                        [\<lparr>ancestor = profileNode, focusNode = profileNode, totalAccountedFor = False\<rparr>]\<rparr>
               | Some visitedNodes \<Rightarrow>
                   s\<lparr>visitedProfileNodesForCallUID :=
                        (visitedProfileNodesForCallUID s)(callUID node \<mapsto> insert (UID node) visitedNodes),
                     nodeInfos := nodeInfos s @
                        [\<lparr>ancestor = profileNode, focusNode = profileNode,
                          totalAccountedFor =
                            list_ex (\<lambda>parentProfileNode.
                                UID (fieldsOf (nodeAt (tree s) parentProfileNode)) \<in> visitedNodes)
                              parentProfileNodes\<rparr>]\<rparr>)
         else s)"

definition pushGroup :: "nat list list \<Rightarrow> nat list \<Rightarrow> Traversal \<Rightarrow> Traversal" where
  "pushGroup parentProfileNodes profileNode s =
     (let n = length (treeChildren (nodeAt (tree s) profileNode))
      in if n \<noteq> 0
         then s\<lparr>profileNodeGroups := profileNodeGroups s @
                  [(parentProfileNodes @ [profileNode], map (\<lambda>j. profileNode @ [j]) [0..<n])]\<rparr>
         else s)"

definition visitNode :: "nat list list \<Rightarrow> nat list \<Rightarrow> Traversal \<Rightarrow> Traversal" where
  "visitNode parentProfileNodes profileNode s =
     pushGroup parentProfileNodes profileNode
       (recordNode parentProfileNodes profileNode (assignUID profileNode s))"

definition groupsSize :: "TreeNode \<Rightarrow> (nat list list \<times> nat list list) list \<Rightarrow> nat" where
  "groupsSize t groups = (\<Sum>(parents, refs)\<leftarrow>groups. Suc (\<Sum>ref\<leftarrow>refs. treeSize (nodeAt t ref)))"

lemma treeSize_assignUID [simp]:
  "treeSize (nodeAt (tree (assignUID ref s)) r) = treeSize (nodeAt (tree s) r)"
  by (simp add: assignUID_def treeSize_modifyAt_updateFields)

lemma treeSize_recordNode [simp]:
  "treeSize (nodeAt (tree (recordNode parents ref s)) r) = treeSize (nodeAt (tree s) r)"
  by (simp add: recordNode_def Let_def split: option.splits)

lemma treeSize_visitNode [simp]:
  "treeSize (nodeAt (tree (visitNode parents ref s)) r) = treeSize (nodeAt (tree s) r)"
  by (simp add: visitNode_def pushGroup_def Let_def)

lemma groupsSize_cong:
  "(\<And>r. treeSize (nodeAt t1 r) = treeSize (nodeAt t r)) \<Longrightarrow> groupsSize t1 groups = groupsSize t groups"
  by (simp add: groupsSize_def)

lemma treeSize_node_children:
  "treeChildren (nodeAt t ref) \<noteq> [] \<Longrightarrow>
     Suc (\<Sum>r\<leftarrow>map (\<lambda>j. ref @ [j]) [0..<length (treeChildren (nodeAt t ref))]. treeSize (nodeAt t r))
       \<le> treeSize (nodeAt t ref)"
proof -
  let ?n = "length (treeChildren (nodeAt t ref))"
  have "map (\<lambda>j. treeSize (nodeAt t (ref @ [j]))) [0..<?n]
      = map (\<lambda>j. treeSize (treeChildren (nodeAt t ref) ! j)) [0..<?n]"
    by (simp add: nodeAt_child)
  then have "(\<Sum>r\<leftarrow>map (\<lambda>j. ref @ [j]) [0..<?n]. treeSize (nodeAt t r))
      = (\<Sum>j\<leftarrow>[0..<?n]. treeSize (treeChildren (nodeAt t ref) ! j))"
    by (simp only: map_map comp_def)
  then show ?thesis
    using treeSize_children [of "nodeAt t ref"] by linarith
qed

lemma groupsSize_visitNode:
  "groupsSize (tree (visitNode parents ref s)) (profileNodeGroups (visitNode parents ref s))
     \<le> groupsSize (tree s) (profileNodeGroups s) + treeSize (nodeAt (tree s) ref)"
proof -
  let ?s1 = "recordNode parents ref (assignUID ref s)"
  have groups1: "profileNodeGroups ?s1 = profileNodeGroups s"
    by (simp add: recordNode_def assignUID_def Let_def split: option.splits)
  have size1: "treeSize (nodeAt (tree ?s1) r) = treeSize (nodeAt (tree s) r)" for r
    by simp
  have same: "groupsSize (tree ?s1) g = groupsSize (tree s) g" for g
    by (rule groupsSize_cong) (rule size1)
  show ?thesis
  proof (cases "treeChildren (nodeAt (tree ?s1) ref) = []")
    case True
    then show ?thesis
      by (simp add: visitNode_def pushGroup_def groups1 same)
  next
    case False
    from treeSize_node_children [OF this]
    show ?thesis
      using False by (simp add: visitNode_def pushGroup_def Let_def groups1 same groupsSize_def size1)
  qed
qed

lemma groupsSize_fold_visitNode:
  "groupsSize (tree (fold (visitNode parents) refs s)) (profileNodeGroups (fold (visitNode parents) refs s))
     \<le> groupsSize (tree s) (profileNodeGroups s) + (\<Sum>ref\<leftarrow>refs. treeSize (nodeAt (tree s) ref))"
proof (induction refs arbitrary: s)
  case Nil
  then show ?case by simp
next
  case (Cons ref refs)
  have "(\<Sum>r\<leftarrow>refs. treeSize (nodeAt (tree (visitNode parents ref s)) r))
      = (\<Sum>r\<leftarrow>refs. treeSize (nodeAt (tree s) r))"
    by simp
  then show ?case
    using Cons.IH [of "visitNode parents ref s"] groupsSize_visitNode [of parents ref s]
    by simp
qed

text \<open>The outer loop: one group of nodes, with their parents, at a time.\<close>

function traverse :: "Traversal \<Rightarrow> Traversal" where
  "traverse s =
     (case profileNodeGroups s of
        [] \<Rightarrow> s
      | (parentProfileNodes, profileNodes) # rest \<Rightarrow>
          traverse (fold (visitNode parentProfileNodes) profileNodes (s\<lparr>profileNodeGroups := rest\<rparr>)))"
  by pat_completeness auto
termination
proof (relation "measure (\<lambda>s. groupsSize (tree s) (profileNodeGroups s))")
  show "wf (measure (\<lambda>s. groupsSize (tree s) (profileNodeGroups s)))"
    by simp
next
  fix s :: Traversal and group rest parentProfileNodes profileNodes
  assume groups: "profileNodeGroups s = group # rest" and group: "(parentProfileNodes, profileNodes) = group"
  have "groupsSize (tree s) (profileNodeGroups s)
      = Suc (groupsSize (tree s) rest + (\<Sum>ref\<leftarrow>profileNodes. treeSize (nodeAt (tree s) ref)))"
    using groups group [symmetric] by (simp add: groupsSize_def)
  then show "(fold (visitNode parentProfileNodes) profileNodes (s\<lparr>profileNodeGroups := rest\<rparr>), s)
      \<in> measure (\<lambda>s. groupsSize (tree s) (profileNodeGroups s))"
    using groupsSize_fold_visitNode [of parentProfileNodes profileNodes "s\<lparr>profileNodeGroups := rest\<rparr>"]
    by simp
qed

text \<open>
  The getter \<open>remainingNodeInfos\<close>: the entries, with the tree they refer to (a tree
  that \<open>translatedRoot\<close> has just built).
\<close>

definition remainingNodeInfos :: "Profile \<Rightarrow> (Profile \<times> (error + NodeInfo list \<times> TreeNode)) option" where
  "remainingNodeInfos p =
     (case translatedRoot p of
        None \<Rightarrow> None
      | Some (p1, Inl e) \<Rightarrow> Some (p1, Inl e)
      | Some (p1, Inr t) \<Rightarrow>
          (let s = traverse \<lparr>tree = t, profileNodeUIDs = 0, profileNodeGroups = [([], [[]])],
                            visitedProfileNodesForCallUID = Map.empty, nodeInfos = []\<rparr>
           in Some (p1, Inr (nodeInfos s, tree s))))"

text \<open>
  The body of the loop of \<open>bottomUpNodes\<close>. \<open>filter(...).pop()\<close> is the last
  bottom-up node with the call UID of the ancestor; it is written in place.
\<close>

definition mergeNodeInfo :: "TreeNode \<Rightarrow> NodeInfo \<Rightarrow> TreeNode list \<Rightarrow> TreeNode list" where
  "mergeNodeInfo t nodeInfo bottomUp =
     (let anc = nodeAt t (ancestor nodeInfo);
          focus = fieldsOf (nodeAt t (focusNode nodeInfo))
      in case rev (filter (\<lambda>i. callUID (fieldsOf (bottomUp ! i)) = callUID (fieldsOf anc)) [0..<length bottomUp]) of
           i # _ \<Rightarrow>
             bottomUp[i := updateFields (\<lambda>d. d\<lparr>selfTime := selfTime d + selfTime focus,
                                               totalTime := (if \<not> totalAccountedFor nodeInfo
                                                             then totalTime d + totalTime focus
                                                             else totalTime d)\<rparr>) (bottomUp ! i)]
         | [] \<Rightarrow>
             bottomUp @
               [if ancestor nodeInfo \<noteq> focusNode nodeInfo
                then updateFields (\<lambda>d. d\<lparr>selfTime := selfTime focus, totalTime := totalTime focus\<rparr>) (clone anc)
                else clone anc])"

definition bottomUpNodes :: "Profile \<Rightarrow> (Profile \<times> (error + TreeNode list)) option" where
  "bottomUpNodes p =
     (case remainingNodeInfos p of
        None \<Rightarrow> None
      | Some (p1, Inl e) \<Rightarrow> Some (p1, Inl e)
      | Some (p1, Inr (infos, t)) \<Rightarrow> Some (p1, Inr (fold (mergeNodeInfo t) infos [])))"

record FormattedNode =
  fmt_functionName :: string
  fmt_selfTime :: jsnum
  fmt_totalTime :: jsnum

definition formattedBottomUpProfile :: "Profile \<Rightarrow> (Profile \<times> (error + FormattedNode list)) option" where
  "formattedBottomUpProfile p =
     (case bottomUpNodes p of
        None \<Rightarrow> None
      | Some (p1, Inl e) \<Rightarrow> Some (p1, Inl e)
      | Some (p1, Inr bottomUp) \<Rightarrow>
          Some (p1, Inr (map (\<lambda>node. \<lparr>fmt_functionName = functionName (callFrame (fieldsOf node)),
                                       fmt_selfTime = selfTime (fieldsOf node),
                                       fmt_totalTime = totalTime (fieldsOf node)\<rparr>) bottomUp)))"

section \<open>Example profiles\<close>

definition frame :: "string \<Rightarrow> string \<Rightarrow> string \<Rightarrow> int \<Rightarrow> CallFrame" where
  "frame name sid u line =
     \<lparr>functionName = name, scriptId = sid, url = u, lineNumber = line, columnNumber = 0\<rparr>"

definition nodeObject :: "nat \<Rightarrow> CallFrame \<Rightarrow> int \<Rightarrow> nat list \<Rightarrow> NodeObject" where
  "nodeObject i cf h cs =
     \<lparr>obj_id = i, obj_callFrame = cf, obj_hitCount = h, obj_children = Some cs,
      obj_positionTicks = None, obj_deoptReason = None\<rparr>"

definition profileObject :: "NodeObject list \<Rightarrow> real \<Rightarrow> real \<Rightarrow> ProfileObject" where
  "profileObject ns s e =
     \<lparr>obj_nodes = ns, obj_startTime = Number s, obj_endTime = Number e,
      obj_samples = [], obj_timeDeltas = []\<rparr>"

text \<open>
  The recursion scenario: root (id 1, no hits), A (id 2, 10 hits), B (id 3, 5 hits,
  child of A), A again (id 4, 5 hits, child of B); 2000 between start and end.
\<close>

definition recursiveNodes :: "NodeObject list" where
  "recursiveNodes =
     [nodeObject 1 (frame ''(root)'' ''0'' [] (-1)) 0 [2],
      nodeObject 2 (frame ''A'' ''7'' ''a.js'' 3) 10 [3],
      nodeObject 3 (frame ''B'' ''7'' ''a.js'' 9) 5 [4],
      nodeObject 4 (frame ''A'' ''7'' ''a.js'' 3) 5 []]"

definition recursiveProfile :: Profile where
  "recursiveProfile = Profile_createFromObject (profileObject recursiveNodes 0 2000)"

definition treeNode ::
  "nat \<Rightarrow> CallFrame \<Rightarrow> int \<Rightarrow> real \<Rightarrow> real \<Rightarrow> int \<Rightarrow> nat list option \<Rightarrow> TreeNode list \<Rightarrow> TreeNode" where
  "treeNode i cf h st tt dep par cs =
     TreeNode ((newFields i cf h [] None)
                 \<lparr>selfTime := Number st, totalTime := Number tt, depth := Some dep, parent := par\<rparr>) cs"

text \<open>The tree that \<open>translatedRoot\<close> makes of the recursion scenario.\<close>

definition recursiveTree :: TreeNode where
  "recursiveTree =
     treeNode 1 (frame ''(root)'' ''0'' [] (-1)) 0 0 2 (-1) None
       [treeNode 2 (frame ''A'' ''7'' ''a.js'' 3) 10 1 2 0 (Some [])
          [treeNode 3 (frame ''B'' ''7'' ''a.js'' 9) 5 (1/2) 1 1 (Some [0])
             [treeNode 4 (frame ''A'' ''7'' ''a.js'' 3) 5 (1/2) (1/2) 2 (Some [0, 0]) []]]]"

text \<open>A profile without a hit: root (id 1) and A (id 2, child of the root).\<close>

definition zeroHitNodes :: "NodeObject list" where
  "zeroHitNodes =
     [nodeObject 1 (frame ''(root)'' ''0'' [] (-1)) 0 [2],
      nodeObject 2 (frame ''A'' ''7'' ''a.js'' 3) 0 []]"

definition zeroHitProfile :: Profile where
  "zeroHitProfile = Profile_createFromObject (profileObject zeroHitNodes 0 2000)"

text \<open>The recursion scenario with the end before the start.\<close>

definition backwardsProfile :: Profile where
  "backwardsProfile = Profile_createFromObject (profileObject recursiveNodes 2000 0)"

text \<open>A root with two children, of which the first (id 9) is no node of the profile.\<close>

definition danglingNodes :: "NodeObject list" where
  "danglingNodes =
     [nodeObject 1 (frame ''(root)'' ''0'' [] (-1)) 0 [9, 2],
      nodeObject 2 (frame ''A'' ''7'' ''a.js'' 3) 4 []]"

definition danglingProfile :: Profile where
  "danglingProfile = Profile_createFromObject (profileObject danglingNodes 0 2000)"

text \<open>
  A node with two children: root (id 1, no hits), A (id 2, 1 hit), and the children
  B (id 3, 2 hits) and C (id 4, 3 hits) of A; 600 between start and end.
\<close>

definition branchingNodes :: "NodeObject list" where
  "branchingNodes =
     [nodeObject 1 (frame ''(root)'' ''0'' [] (-1)) 0 [2],
      nodeObject 2 (frame ''A'' ''7'' ''a.js'' 3) 1 [3, 4],
      nodeObject 3 (frame ''B'' ''7'' ''a.js'' 9) 2 [],
      nodeObject 4 (frame ''C'' ''7'' ''a.js'' 12) 3 []]"

definition branchingProfile :: Profile where
  "branchingProfile = Profile_createFromObject (profileObject branchingNodes 0 600)"

definition branchingTree :: TreeNode where
  "branchingTree =
     treeNode 1 (frame ''(root)'' ''0'' [] (-1)) 0 0 (6/10) (-1) None
       [treeNode 2 (frame ''A'' ''7'' ''a.js'' 3) 1 (1/10) (6/10) 0 (Some [])
          [treeNode 4 (frame ''C'' ''7'' ''a.js'' 12) 3 (3/10) (3/10) 1 (Some [0]) [],
           treeNode 3 (frame ''B'' ''7'' ''a.js'' 9) 2 (2/10) (2/10) 1 (Some [0]) []]]"

text \<open>
  A profile made by the constructor of nodes of which one has no \<open>children\<close>: root
  (id 1, no hits) and A (id 2, 4 hits, child of the root, its \<open>children\<close> not set).
\<close>

definition unsetNodes :: "ProfileNode list" where
  "unsetNodes =
     [ProfileNode_createFromObject (nodeObject 1 (frame ''(root)'' ''0'' [] (-1)) 0 [2]),
      (ProfileNode_createFromObject (nodeObject 2 (frame ''A'' ''7'' ''a.js'' 3) 4 []))
        \<lparr>children := None\<rparr>]"

definition unsetProfile :: Profile where
  "unsetProfile = Profile_new unsetNodes (Number 0) (Number 2000) [] []"

section \<open>References into a tree\<close>

fun mapFields :: "(NodeFields \<Rightarrow> NodeFields) \<Rightarrow> TreeNode \<Rightarrow> TreeNode" where
  "mapFields h (TreeNode d cs) = TreeNode (h d) (map (mapFields h) cs)"

lemma validPath_append:
  "validPath node (path @ rest) = (validPath node path \<and> validPath (nodeAt node path) rest)"
proof (induction path arbitrary: node)
  case Nil
  then show ?case by simp
next
  case (Cons j path)
  then show ?case by (cases node) auto
qed

lemma validPath_snoc:
  "validPath node (path @ [j]) = (validPath node path \<and> j < length (treeChildren (nodeAt node path)))"
  by (cases "nodeAt node path") (simp add: validPath_append)

lemma children_invalid: "\<not> validPath node path \<Longrightarrow> treeChildren (nodeAt node path) = []"
proof (induction path arbitrary: node)
  case Nil
  then show ?case by simp
next
  case (Cons j path)
  then show ?case by (cases node) auto
qed

lemma validPath_modifyAt [simp]:
  "validPath (modifyAt (updateFields g) path node) ref = validPath node ref"
proof (induction path arbitrary: node ref)
  case Nil
  show ?case by (cases node; cases ref) (simp_all add: updateFields_def)
next
  case (Cons j path)
  show ?case
  proof (cases node)
    case (TreeNode d cs)
    then show ?thesis
      using Cons.IH by (cases ref) (auto simp: nth_list_update)
  qed
qed

lemma length_children_modifyAt [simp]:
  "length (treeChildren (nodeAt (modifyAt (updateFields g) path node) ref))
     = length (treeChildren (nodeAt node ref))"
proof (induction path arbitrary: node ref)
  case Nil
  show ?case by (cases node; cases ref) (simp_all add: updateFields_def)
next
  case (Cons j path)
  show ?case
  proof (cases node)
    case (TreeNode d cs)
    then show ?thesis
      using Cons.IH by (cases ref) (auto simp: nth_list_update)
  qed
qed

lemma fieldsOf_modifyAt:
  "validPath node ref \<Longrightarrow>
     fieldsOf (nodeAt (modifyAt (updateFields g) path node) ref)
       = (if ref = path then g (fieldsOf (nodeAt node ref)) else fieldsOf (nodeAt node ref))"
proof (induction path arbitrary: node ref)
  case Nil
  then show ?case by (cases node; cases ref) (simp_all add: updateFields_def)
next
  case (Cons j path)
  show ?case
  proof (cases node)
    case (TreeNode d cs)
    then show ?thesis
      using Cons.IH Cons.prems by (cases ref) (auto simp: nth_list_update)
  qed
qed

lemma mapFields_modifyAt:
  assumes "\<And>d. h (g d) = h d"
  shows "mapFields h (modifyAt (updateFields g) path node) = mapFields h node"
proof (induction path arbitrary: node)
  case Nil
  show ?case by (cases node) (simp add: updateFields_def assms)
next
  case (Cons j path)
  show ?case
  proof (cases node)
    case (TreeNode d cs)
    show ?thesis
    proof (cases "j < length cs")
      case True
      have "map (mapFields h) (cs[j := modifyAt (updateFields g) path (cs ! j)]) = map (mapFields h) cs"
        using True by (simp add: map_update Cons.IH list_update_same_conv)
      then show ?thesis using TreeNode True by simp
    next
      case False
      then show ?thesis using TreeNode by simp
    qed
  qed
qed

lemma validPath_mapFields [simp]: "validPath (mapFields h node) path = validPath node path"
proof (induction path arbitrary: node)
  case Nil
  then show ?case by simp
next
  case (Cons j path)
  show ?case
  proof (cases node)
    case (TreeNode d cs)
    then show ?thesis
      using Cons.IH [of "cs ! j"] by (cases "j < length cs") simp_all
  qed
qed

lemma fieldsOf_mapFields [simp]:
  "fieldsOf (nodeAt (mapFields h node) path) = h (fieldsOf (nodeAt node path))"
proof (induction path arbitrary: node)
  case Nil
  then show ?case by (cases node) simp
next
  case (Cons j path)
  then show ?case by (cases node) auto
qed

lemma length_children_mapFields [simp]:
  "length (treeChildren (nodeAt (mapFields h node) path)) = length (treeChildren (nodeAt node path))"
proof (induction path arbitrary: node)
  case Nil
  then show ?case by (cases node) simp
next
  case (Cons j path)
  then show ?case by (cases node) auto
qed

section \<open>The examples, evaluated\<close>

declare translateLoop.simps [code]

lemma translatedRoot_recursiveProfile:
  "map_option snd (translatedRoot recursiveProfile) = Some (Inr recursiveTree)"
  by code_simp

lemma formatted_recursiveProfile:
  "map_option snd (formattedBottomUpProfile recursiveProfile) =
     Some (Inr [\<lparr>fmt_functionName = ''A'', fmt_selfTime = Number (3/2), fmt_totalTime = Number 2\<rparr>,
                \<lparr>fmt_functionName = ''B'', fmt_selfTime = Number (1/2), fmt_totalTime = Number 1\<rparr>])"
  by code_simp

lemma formatted_zeroHitProfile:
  "map_option snd (formattedBottomUpProfile zeroHitProfile) =
     Some (Inr [\<lparr>fmt_functionName = ''A'', fmt_selfTime = NaN, fmt_totalTime = NaN\<rparr>])"
  by code_simp

lemma formatted_backwardsProfile:
  "map_option snd (formattedBottomUpProfile backwardsProfile) =
     Some (Inr [\<lparr>fmt_functionName = ''A'', fmt_selfTime = Number (- 3/2), fmt_totalTime = Number (- 2)\<rparr>,
                \<lparr>fmt_functionName = ''B'', fmt_selfTime = Number (- 1/2), fmt_totalTime = Number (- 1)\<rparr>])"
  by code_simp

lemma translatedRoot_danglingProfile:
  "map_option snd (translatedRoot danglingProfile) = Some (Inl TypeError)"
  by code_simp

lemma translateLoop_danglingProfile:
  "map_option snd (translateLoop danglingProfile (cloneWithoutChildren (hd (nodes danglingProfile)))
       [([], Some 1), ([], None)]) = Some (Inl TypeError)"
  by code_simp

lemma translatedRoot_branchingProfile:
  "map_option snd (translatedRoot branchingProfile) = Some (Inr branchingTree)"
  by code_simp

lemma translatedRoot_unsetProfile:
  "map_option (map children \<circ> nodes \<circ> fst) (translatedRoot unsetProfile) = Some [Some [2], Some []]"
  by code_simp

lemma formatted_unsetProfile:
  "map_option (map children \<circ> nodes \<circ> fst) (formattedBottomUpProfile unsetProfile)
     = Some [Some [2], Some []]"
  by code_simp

section \<open>The sampling interval and the self times\<close>

lemma fold_hitCount:
  "fold (\<lambda>node acc. acc + hitCount node) ns a = a + sum_list (map hitCount ns)"
  by (induction ns arbitrary: a) simp_all

lemma nodes_Profile_new:
  "nodes (Profile_new ns st en sm td) =
     map (\<lambda>node. if functionName (callFrame node) = []
                  then node\<lparr>callFrame := (callFrame node)\<lparr>functionName := ''(anonymous function)''\<rparr>\<rparr>
                  else node)
       (map (\<lambda>node. node\<lparr>selfTime := (toNumber (hitCount node) *
                 ((en - st) / toNumber (sum_list (map hitCount ns)))) / Number 1000\<rparr>) ns)"
  by (simp add: Profile_new_def nameAnonymousFunctions_def assignInitialSelfTimes_def
      determineSamplingInterval_def createIdToNodeMap_def fold_hitCount)

lemma samplingInterval_Profile_new:
  "samplingInterval (Profile_new ns st en sm td) = (en - st) / toNumber (sum_list (map hitCount ns))"
  by (simp add: Profile_new_def nameAnonymousFunctions_def assignInitialSelfTimes_def
      determineSamplingInterval_def createIdToNodeMap_def fold_hitCount)

lemma finite_interval:
  "0 < h \<Longrightarrow> (Number e - Number s) / toNumber h = Number ((e - s) / of_int h)"
  by (simp add: minus_jsnum_def divide_jsnum_def toNumber_def)

lemma finite_selfTime:
  "(toNumber h * Number x) / Number 1000 = Number (of_int h * x / 1000)"
  by (simp add: times_jsnum_def divide_jsnum_def toNumber_def)

text \<open>
  C5. With a positive total hit count, the sampling interval of a constructed profile
  is (endTime - startTime) divided by the sum of the hit counts of all flat nodes, and
  the self time of every flat node is its hit count times the sampling interval,
  divided by 1000. With finite start and end times both are the finite numbers these
  formulas denote.
\<close>

theorem sampling_interval_and_self_times:
  assumes "0 < sum_list (map hitCount ns)"
  shows "samplingInterval (Profile_new ns st en sm td)
           = (en - st) / toNumber (sum_list (map hitCount ns))
       \<and> length (nodes (Profile_new ns st en sm td)) = length ns
       \<and> (\<forall>i < length ns.
             hitCount (nodes (Profile_new ns st en sm td) ! i) = hitCount (ns ! i)
           \<and> selfTime (nodes (Profile_new ns st en sm td) ! i)
               = (toNumber (hitCount (ns ! i)) * samplingInterval (Profile_new ns st en sm td))
                   / Number 1000)
       \<and> (\<forall>s e. st = Number s \<and> en = Number e \<longrightarrow>
             samplingInterval (Profile_new ns st en sm td)
               = Number ((e - s) / of_int (sum_list (map hitCount ns)))
           \<and> (\<forall>i < length ns.
                 selfTime (nodes (Profile_new ns st en sm td) ! i)
                   = Number (of_int (hitCount (ns ! i))
                       * ((e - s) / of_int (sum_list (map hitCount ns))) / 1000)))"
proof -
  let ?p = "Profile_new ns st en sm td"
  have si: "samplingInterval ?p = (en - st) / toNumber (sum_list (map hitCount ns))"
    by (rule samplingInterval_Profile_new)
  have len: "length (nodes ?p) = length ns"
    by (simp add: nodes_Profile_new)
  have nth: "hitCount (nodes ?p ! i) = hitCount (ns ! i)
      \<and> selfTime (nodes ?p ! i) = (toNumber (hitCount (ns ! i)) * samplingInterval ?p) / Number 1000"
    if "i < length ns" for i
    using that by (simp add: nodes_Profile_new si)
  have fin: "samplingInterval ?p = Number ((e - s) / of_int (sum_list (map hitCount ns)))
      \<and> (\<forall>i < length ns. selfTime (nodes ?p ! i)
            = Number (of_int (hitCount (ns ! i)) * ((e - s) / of_int (sum_list (map hitCount ns))) / 1000))"
    if "st = Number s" "en = Number e" for s e
  proof -
    have "samplingInterval ?p = Number ((e - s) / of_int (sum_list (map hitCount ns)))"
      using assms unfolding that by (simp add: samplingInterval_Profile_new finite_interval)
    then show ?thesis
      using nth by (simp add: finite_selfTime)
  qed
  show ?thesis
    using si len nth fin by blast
qed

lemmas example_defs =
  recursiveNodes_def ProfileNode_createFromObject_def nodeObject_def newFields_def
  NodeFields.extend_def ProfileNode.fields_def frame_def profileObject_def
  Profile_createFromObject_def

theorem sampling_interval_and_self_times_witness:
  "0 < sum_list (map hitCount (map ProfileNode_createFromObject recursiveNodes))
   \<and> samplingInterval recursiveProfile = Number 100
   \<and> map selfTime (nodes recursiveProfile) = [Number 0, Number 1, Number (1/2), Number (1/2)]"
proof -
  let ?ns = "map ProfileNode_createFromObject recursiveNodes"
  have pos: "0 < sum_list (map hitCount ?ns)"
    by (simp add: example_defs)
  have p: "recursiveProfile = Profile_new ?ns (Number 0) (Number 2000) [] []"
    by (simp add: recursiveProfile_def Profile_createFromObject_def profileObject_def)
  have "samplingInterval recursiveProfile = (Number 2000 - Number 0) / toNumber (sum_list (map hitCount ?ns))"
    unfolding p
    using sampling_interval_and_self_times [OF pos, of "Number 0" "Number 2000" "[]" "[]"]
    by (rule conjunct1)
  also have "\<dots> = Number 100"
    by (simp add: example_defs minus_jsnum_def divide_jsnum_def toNumber_def)
  finally have si: "samplingInterval recursiveProfile = Number 100" .
  have "map selfTime (nodes recursiveProfile) = [Number 0, Number 1, Number (1/2), Number (1/2)]"
    unfolding p nodes_Profile_new
    by (simp add: example_defs minus_jsnum_def divide_jsnum_def times_jsnum_def toNumber_def)
  then show ?thesis
    using pos si by simp
qed

section \<open>Total times of the translated tree\<close>

declare assignLoop.simps [simp del]

definition forgetPosition :: "NodeFields \<Rightarrow> NodeFields" where
  "forgetPosition d = d\<lparr>depth := None, parent := None\<rparr>"

text \<open>
  The total time of a node is what the reduction of \<open>sumTotal\<close> gives: the total times
  of the children are added to the self time one after the other, from the first
  child on.
\<close>

definition addTotals :: "jsnum \<Rightarrow> TreeNode list \<Rightarrow> jsnum" where
  "addTotals st cs = fold (\<lambda>child acc. acc + totalTime (fieldsOf child)) cs st"

fun totalsOk :: "TreeNode \<Rightarrow> bool" where
  "totalsOk (TreeNode d cs) = (totalTime d = addTotals (selfTime d) cs \<and> list_all totalsOk cs)"

lemma totalsOk_sumTotal: "totalsOk (sumTotal node)"
proof (induction node)
  case (TreeNode d cs)
  then show ?case
    by (simp add: Let_def addTotals_def list_all_iff)
qed

lemma totalsOk_nodeAt:
  "totalsOk node \<Longrightarrow> validPath node path \<Longrightarrow>
     totalTime (fieldsOf (nodeAt node path))
       = addTotals (selfTime (fieldsOf (nodeAt node path))) (treeChildren (nodeAt node path))"
proof (induction path arbitrary: node)
  case Nil
  then show ?case by (cases node) simp
next
  case (Cons j path)
  show ?case
  proof (cases node)
    case (TreeNode d cs)
    with Cons.prems have "j < length cs" "totalsOk (cs ! j)" "validPath (cs ! j) path"
      by (simp_all add: list_all_length)
    then show ?thesis
      using Cons.IH [of "cs ! j"] TreeNode by simp
  qed
qed

lemma addTotals_cong:
  "map (\<lambda>child. totalTime (fieldsOf child)) cs = map (\<lambda>child. totalTime (fieldsOf child)) cs1 \<Longrightarrow>
     addTotals st cs = addTotals st cs1"
proof (induction cs arbitrary: cs1 st)
  case Nil
  then show ?case by (simp add: addTotals_def)
next
  case (Cons c cs)
  then obtain c1 cs2 where cs1: "cs1 = c1 # cs2"
    by (cases cs1) auto
  with Cons.prems have "totalTime (fieldsOf c) = totalTime (fieldsOf c1)"
    and "map (\<lambda>child. totalTime (fieldsOf child)) cs = map (\<lambda>child. totalTime (fieldsOf child)) cs2"
    by simp_all
  with Cons.IH [of cs2 "st + totalTime (fieldsOf c1)"] cs1 show ?case
    by (simp add: addTotals_def)
qed

lemma totalsOk_mapFields:
  assumes "\<And>d. selfTime (h d) = selfTime d" "\<And>d. totalTime (h d) = totalTime d"
  shows "totalsOk (mapFields h node) = totalsOk node"
proof (induction node)
  case (TreeNode d cs)
  have total: "totalTime (fieldsOf (mapFields h child)) = totalTime (fieldsOf child)" for child
    by (cases child) (simp add: assms)
  have "addTotals st (map (mapFields h) cs) = addTotals st cs" for st
    by (rule addTotals_cong) (simp add: total)
  moreover have "list_all (\<lambda>child. totalsOk (mapFields h child)) cs = list_all totalsOk cs"
    using TreeNode.IH by (simp add: list_all_iff)
  ultimately show ?case
    by (simp add: assms comp_def list_all_iff)
qed

lemma forgetPosition_assignChild:
  "assignChild dep parentRef j (t, stack) = (t1, stack1) \<Longrightarrow>
     mapFields forgetPosition t1 = mapFields forgetPosition t"
  by (auto simp: assignChild_def Let_def forgetPosition_def intro!: mapFields_modifyAt)

lemma forgetPosition_fold_assignChild:
  "fold (assignChild dep parentRef) js (t, stack) = (t1, stack1) \<Longrightarrow>
     mapFields forgetPosition t1 = mapFields forgetPosition t"
proof (induction js arbitrary: t stack)
  case Nil
  then show ?case by simp
next
  case (Cons j js)
  obtain t2 stack2 where step: "assignChild dep parentRef j (t, stack) = (t2, stack2)"
    by (cases "assignChild dep parentRef j (t, stack)")
  with Cons.prems have "fold (assignChild dep parentRef) js (t2, stack2) = (t1, stack1)"
    by simp
  from Cons.IH [OF this] forgetPosition_assignChild [OF step] show ?case
    by simp
qed

lemma forgetPosition_assignStep:
  "assignStep t parentRef rest = (t1, stack1) \<Longrightarrow>
     mapFields forgetPosition t1 = mapFields forgetPosition t"
  unfolding assignStep_def Let_def by (rule forgetPosition_fold_assignChild)

lemma forgetPosition_assignLoop:
  "mapFields forgetPosition (assignLoop t stack) = mapFields forgetPosition t"
proof (induction t stack rule: assignLoop.induct)
  case (1 t stack)
  show ?case
  proof (cases stack)
    case Nil
    then show ?thesis by (simp add: assignLoop.simps)
  next
    case (Cons parentRef rest)
    obtain t1 stack1 where step: "assignStep t parentRef rest = (t1, stack1)"
      by (cases "assignStep t parentRef rest")
    have "assignLoop t stack = assignLoop t1 stack1"
      using Cons step by (subst assignLoop.simps) simp
    then show ?thesis
      using "1.IH" [OF Cons step [symmetric]] forgetPosition_assignStep [OF step] by simp
  qed
qed

lemma translatedRoot_Inr:
  assumes "translatedRoot p = Some (p1, Inr t)"
  obtains originalRoot others cs built where
    "nodes p = originalRoot # others" "children originalRoot = Some cs"
    "translateLoop p (cloneWithoutChildren originalRoot)
       (rev (map (\<lambda>childId. ([], idToNodeMap p childId)) cs)) = Some (p1, Inr built)"
    "t = assignLoop (updateFields (\<lambda>d. d\<lparr>depth := Some (- 1), parent := None\<rparr>) (sumTotal built)) [[]]"
  using assms unfolding translatedRoot_def
  by (auto split: list.splits option.splits sum.splits prod.splits)

lemma forgetPosition_translatedRoot:
  assumes "t = assignLoop (updateFields (\<lambda>d. d\<lparr>depth := Some (- 1), parent := None\<rparr>) built) [[]]"
  shows "mapFields forgetPosition t = mapFields forgetPosition built"
proof -
  have "mapFields forgetPosition (modifyAt (updateFields (\<lambda>d. d\<lparr>depth := Some (- 1), parent := None\<rparr>)) [] built)
      = mapFields forgetPosition built"
    by (rule mapFields_modifyAt) (simp add: forgetPosition_def)
  then show ?thesis
    using assms by (simp add: forgetPosition_assignLoop)
qed

text \<open>
  C6. In the tree that \<open>translatedRoot\<close> returns, the total time of every node, the
  root included, is its self time plus the total times of its children: the sum that
  \<open>sumTotal\<close> makes once the tree is built, the children below a node first, adding to
  the self time the total time of one child after the other, in their order.
\<close>

theorem total_time_is_self_plus_children:
  assumes "translatedRoot p = Some (p1, Inr t)" and "validPath t path"
  shows "totalTime (fieldsOf (nodeAt t path))
           = fold (\<lambda>child acc. acc + totalTime (fieldsOf child)) (treeChildren (nodeAt t path))
               (selfTime (fieldsOf (nodeAt t path)))"
proof -
  from assms(1) obtain built where
    t: "t = assignLoop (updateFields (\<lambda>d. d\<lparr>depth := Some (- 1), parent := None\<rparr>) (sumTotal built)) [[]]"
    by (rule translatedRoot_Inr)
  have same: "mapFields forgetPosition t = mapFields forgetPosition (sumTotal built)"
    using t by (rule forgetPosition_translatedRoot)
  have keep: "totalsOk (mapFields forgetPosition node) = totalsOk node" for node
    by (rule totalsOk_mapFields) (simp_all add: forgetPosition_def)
  have "totalsOk t"
    using keep [of t] keep [of "sumTotal built"] same totalsOk_sumTotal by simp
  then show ?thesis
    using assms(2) unfolding addTotals_def [symmetric] by (rule totalsOk_nodeAt)
qed

theorem total_time_is_self_plus_children_witness:
  "\<exists>p1 t. translatedRoot branchingProfile = Some (p1, Inr t) \<and> validPath t [0]
     \<and> selfTime (fieldsOf (nodeAt t [0])) = Number (1/10)
     \<and> map (\<lambda>child. totalTime (fieldsOf child)) (treeChildren (nodeAt t [0])) = [Number (3/10), Number (2/10)]
     \<and> totalTime (fieldsOf (nodeAt t [0])) = (Number (1/10) + Number (3/10)) + Number (2/10)"
proof -
  obtain p1 where tr: "translatedRoot branchingProfile = Some (p1, Inr branchingTree)"
    using translatedRoot_branchingProfile by (cases "translatedRoot branchingProfile") auto
  have valid: "validPath branchingTree [0]"
    by (simp add: branchingTree_def treeNode_def)
  have self: "selfTime (fieldsOf (nodeAt branchingTree [0])) = Number (1/10)"
    and kids: "map (\<lambda>child. totalTime (fieldsOf child)) (treeChildren (nodeAt branchingTree [0]))
        = [Number (3/10), Number (2/10)]"
    by (simp_all add: branchingTree_def treeNode_def)
  have "totalTime (fieldsOf (nodeAt branchingTree [0]))
      = fold (\<lambda>x acc. acc + x)
          (map (\<lambda>child. totalTime (fieldsOf child)) (treeChildren (nodeAt branchingTree [0])))
          (selfTime (fieldsOf (nodeAt branchingTree [0])))"
    using total_time_is_self_plus_children [OF tr valid] by (simp add: fold_map comp_def)
  then have total: "totalTime (fieldsOf (nodeAt branchingTree [0]))
      = (Number (1/10) + Number (3/10)) + Number (2/10)"
    unfolding self kids by simp
  show ?thesis
    by (rule exI [of _ p1], rule exI [of _ branchingTree], intro conjI)
      (fact tr valid self kids total)+
qed

section \<open>The body of the loop of translatedRoot\<close>

text \<open>
  What \<open>translateStep\<close> reads of the source node does not depend on the children it
  may have written just before: the step is given by the node as it was.
\<close>

definition defaultChildren :: "Profile \<Rightarrow> nat \<Rightarrow> Profile" where
  "defaultChildren p i =
     (if children (nodes p ! i) = None
      then p\<lparr>nodes := (nodes p)[i := (nodes p ! i)\<lparr>children := Some []\<rparr>]\<rparr>
      else p)"

definition stepTree :: "Profile \<Rightarrow> TreeNode \<Rightarrow> nat list \<Rightarrow> nat \<Rightarrow> TreeNode" where
  "stepTree p t parentNode i =
     (if \<not> isNativeNode (nodes p ! i)
      then modifyAt (pushChild (cloneWithoutChildren (nodes p ! i))) parentNode t
      else modifyAt (updateFields (\<lambda>d. d\<lparr>selfTime := selfTime d + selfTime (nodes p ! i)\<rparr>)) parentNode t)"

definition stepParent :: "Profile \<Rightarrow> TreeNode \<Rightarrow> nat list \<Rightarrow> nat \<Rightarrow> nat list" where
  "stepParent p t parentNode i =
     (if \<not> isNativeNode (nodes p ! i)
      then parentNode @ [length (treeChildren (nodeAt t parentNode))]
      else parentNode)"

lemma defaultChildren_node:
  "nodes (defaultChildren p i) ! i = nodes p ! i
   \<or> nodes (defaultChildren p i) ! i = (nodes p ! i)\<lparr>children := Some []\<rparr> \<and> children (nodes p ! i) = None"
  by (cases "i < length (nodes p)") (simp_all add: defaultChildren_def list_update_beyond)

lemma defaultChildren_reads:
  "isNativeNode (nodes (defaultChildren p i) ! i) = isNativeNode (nodes p ! i)"
  "cloneWithoutChildren (nodes (defaultChildren p i) ! i) = cloneWithoutChildren (nodes p ! i)"
  "childIds (nodes (defaultChildren p i) ! i) = childIds (nodes p ! i)"
  "idToNodeMap (defaultChildren p i) = idToNodeMap p"
  using defaultChildren_node [of p i]
  by (auto simp: isNativeNode_def cloneWithoutChildren_def childIds_def defaultChildren_def)

lemma translateStep_eq:
  "translateStep p t parentNode i rest =
     (defaultChildren p i, stepTree p t parentNode i,
      rev (map (\<lambda>childId. (stepParent p t parentNode i, idToNodeMap p childId))
             (childIds (nodes p ! i))) @ rest)"
proof -
  have "selfTime (fieldsOf (cloneWithoutChildren (nodes p ! i))) = selfTime (nodes p ! i)"
    by (simp add: cloneWithoutChildren_def newFields_def)
  then show ?thesis
    unfolding translateStep_def Let_def defaultChildren_def [symmetric]
    by (simp add: defaultChildren_reads stepTree_def stepParent_def)
qed

section \<open>The flat nodes are not written\<close>

definition childrenSet :: "Profile \<Rightarrow> bool" where
  "childrenSet p = (\<forall>node\<in>set (nodes p). children node \<noteq> None)"

definition mapInRange :: "Profile \<Rightarrow> bool" where
  "mapInRange p = (\<forall>k i. idToNodeMap p k = Some i \<longrightarrow> i < length (nodes p))"

definition pairsInRange :: "Profile \<Rightarrow> (nat list \<times> nat option) list \<Rightarrow> bool" where
  "pairsInRange p pairs = (\<forall>(parentNode, sourceNode)\<in>set pairs. \<forall>i. sourceNode = Some i \<longrightarrow> i < length (nodes p))"

lemma pairsInRange_children:
  "mapInRange p \<Longrightarrow> pairsInRange p rest \<Longrightarrow>
     pairsInRange p (rev (map (\<lambda>childId. (parentNode, idToNodeMap p childId)) cs) @ rest)"
  by (auto simp: pairsInRange_def mapInRange_def)

lemma translateStep_childrenSet:
  assumes "children (nodes p ! i) \<noteq> None"
  shows "translateStep p t parentNode i rest =
     (p,
      if \<not> isNativeNode (nodes p ! i)
      then modifyAt (pushChild (cloneWithoutChildren (nodes p ! i))) parentNode t
      else modifyAt (updateFields (\<lambda>d. d\<lparr>selfTime := selfTime d + selfTime (nodes p ! i)\<rparr>)) parentNode t,
      rev (map (\<lambda>childId. (if \<not> isNativeNode (nodes p ! i)
                               then parentNode @ [length (treeChildren (nodeAt t parentNode))]
                               else parentNode, idToNodeMap p childId))
             (childIds (nodes p ! i))) @ rest)"
  using assms
  by (simp add: translateStep_def Let_def cloneWithoutChildren_def newFields_def del: not_None_eq)

lemma translateStep_frame:
  assumes "translateStep p t parentNode i rest = (p1, t1, pairs1)"
    and "childrenSet p" and "mapInRange p" and "i < length (nodes p)" and "pairsInRange p rest"
  shows "p1 = p \<and> pairsInRange p pairs1"
proof -
  have set: "children (nodes p ! i) \<noteq> None"
    using assms(2,4) by (simp add: childrenSet_def)
  show ?thesis
    using assms(1) pairsInRange_children [OF assms(3,5)]
    unfolding translateStep_childrenSet [OF set] by auto
qed

lemma translateLoop_frame:
  assumes "translateLoop p t pairs = Some (p1, r)"
    and "childrenSet p" and "mapInRange p" and "pairsInRange p pairs"
  shows "p1 = p"
proof -
  have "childrenSet p \<and> mapInRange p \<and> pairsInRange p pairs \<longrightarrow> fst (p1, r) = p"
  proof (induct rule: translateLoop.raw_induct [OF _ assms(1)])
    case (1 loop p t pairs y)
    show ?case
    proof (intro impI)
      assume inv: "childrenSet p \<and> mapInRange p \<and> pairsInRange p pairs"
      show "fst y = p"
      proof (cases pairs)
        case Nil
        with 1(2) show ?thesis by auto
      next
        case (Cons pair rest)
        obtain parentNode sourceNode where pair: "pair = (parentNode, sourceNode)"
          by (cases pair)
        show ?thesis
        proof (cases sourceNode)
          case None
          with 1(2) Cons pair show ?thesis by auto
        next
          case (Some i)
          have range: "i < length (nodes p)" and rest: "pairsInRange p rest"
            using inv Cons pair Some by (auto simp: pairsInRange_def)
          obtain p2 t2 pairs2 where step: "translateStep p t parentNode i rest = (p2, t2, pairs2)"
            by (cases "translateStep p t parentNode i rest")
          from translateStep_frame [OF step _ _ range rest] inv
          have p2: "p2 = p" and pairs2: "pairsInRange p pairs2"
            by simp_all
          have "loop p t2 pairs2 = Some y"
            using 1(2) Cons pair Some step p2 by simp
          from 1(1) [OF this] inv pairs2 show ?thesis by simp
        qed
      qed
    qed
  qed
  with assms show ?thesis by simp
qed

lemma nodes_createFromObject:
  "nodes (Profile_createFromObject obj) =
     map (\<lambda>node. if functionName (callFrame node) = []
                  then node\<lparr>callFrame := (callFrame node)\<lparr>functionName := ''(anonymous function)''\<rparr>\<rparr>
                  else node)
       (map (\<lambda>node. node\<lparr>selfTime := (toNumber (hitCount node) *
                 ((obj_endTime obj - obj_startTime obj)
                    / toNumber (sum_list (map hitCount (map ProfileNode_createFromObject (obj_nodes obj))))))
                 / Number 1000\<rparr>)
          (map ProfileNode_createFromObject (obj_nodes obj)))"
  unfolding Profile_createFromObject_def by (rule nodes_Profile_new)

lemma childrenSet_createFromObject: "childrenSet (Profile_createFromObject obj)"
  unfolding childrenSet_def nodes_createFromObject
  by (auto simp: ProfileNode_createFromObject_def NodeFields.extend_def ProfileNode.fields_def newFields_def)

lemma fold_idToNodeMap_range:
  "fold (\<lambda>(i, node) m. m(nid node \<mapsto> i)) (enumerate n ns) m k = Some i \<Longrightarrow>
     m k = Some i \<or> (n \<le> i \<and> i < n + length ns)"
proof (induction ns arbitrary: n m)
  case Nil
  then show ?case by simp
next
  case (Cons node ns)
  from Cons.prems have "fold (\<lambda>(i, node) m. m(nid node \<mapsto> i)) (enumerate (Suc n) ns) (m(nid node \<mapsto> n)) k = Some i"
    by (simp del: fun_upd_apply)
  from Cons.IH [OF this] show ?case
    by (auto split: if_splits)
qed

lemma mapInRange_Profile_new: "mapInRange (Profile_new ns st en sm td)"
proof -
  have "idToNodeMap (Profile_new ns st en sm td)
      = fold (\<lambda>(i, node) m. m(nid node \<mapsto> i)) (enumerate 0 ns) Map.empty"
    by (simp add: Profile_new_def nameAnonymousFunctions_def assignInitialSelfTimes_def
        determineSamplingInterval_def createIdToNodeMap_def)
  moreover have "length (nodes (Profile_new ns st en sm td)) = length ns"
    by (simp add: nodes_Profile_new)
  ultimately show ?thesis
    using fold_idToNodeMap_range [of 0 ns Map.empty] by (auto simp: mapInRange_def)
qed

lemma translatedRoot_frame:
  assumes "translatedRoot p = Some (p1, r)" and "childrenSet p" and "mapInRange p"
  shows "p1 = p"
proof (cases "nodes p")
  case Nil
  with assms(1) show ?thesis by (simp add: translatedRoot_def)
next
  case (Cons originalRoot others)
  show ?thesis
  proof (cases "children originalRoot")
    case None
    with assms(1) Cons show ?thesis by (simp add: translatedRoot_def)
  next
    case (Some cs)
    let ?pairs = "rev (map (\<lambda>childId. ([], idToNodeMap p childId)) cs)"
    obtain r0 where loop: "translateLoop p (cloneWithoutChildren originalRoot) ?pairs = Some (p1, r0)"
      using assms(1) Cons Some
      by (auto simp: translatedRoot_def split: option.splits sum.splits prod.splits)
    have "pairsInRange p ?pairs"
      using pairsInRange_children [OF assms(3), of "[]" "[]" cs] by (simp add: pairsInRange_def)
    with loop assms(2,3) show ?thesis by (rule translateLoop_frame)
  qed
qed

lemma remainingNodeInfos_frame:
  assumes "remainingNodeInfos p = Some (p1, r)" and "childrenSet p" and "mapInRange p"
  shows "p1 = p"
proof -
  obtain r0 where "translatedRoot p = Some (p1, r0)"
    using assms(1)
    by (auto simp: remainingNodeInfos_def Let_def split: option.splits sum.splits prod.splits)
  then show ?thesis using assms(2,3) by (rule translatedRoot_frame)
qed

lemma bottomUpNodes_frame:
  assumes "bottomUpNodes p = Some (p1, r)" and "childrenSet p" and "mapInRange p"
  shows "p1 = p"
proof -
  obtain r0 where "remainingNodeInfos p = Some (p1, r0)"
    using assms(1)
    by (auto simp: bottomUpNodes_def split: option.splits sum.splits prod.splits)
  then show ?thesis using assms(2,3) by (rule remainingNodeInfos_frame)
qed

lemma formattedBottomUpProfile_frame:
  assumes "formattedBottomUpProfile p = Some (p1, r)" and "childrenSet p" and "mapInRange p"
  shows "p1 = p"
proof -
  obtain r0 where "bottomUpNodes p = Some (p1, r0)"
    using assms(1)
    by (auto simp: formattedBottomUpProfile_def split: option.splits sum.splits prod.splits)
  then show ?thesis using assms(2,3) by (rule bottomUpNodes_frame)
qed

lemma mapInRange_createFromObject: "mapInRange (Profile_createFromObject obj)"
  unfolding Profile_createFromObject_def by (rule mapInRange_Profile_new)

section \<open>What the getters may write of a flat node\<close>

text \<open>
  The one write to a flat node is that of the loop of \<open>translatedRoot\<close>: the
  \<open>children\<close> of a source node that has none become the empty list.
\<close>

definition childrenDefaulted :: "ProfileNode \<Rightarrow> ProfileNode \<Rightarrow> bool" where
  "childrenDefaulted node node1 =
     (node1 = node \<or> (children node = None \<and> node1 = node\<lparr>children := Some []\<rparr>))"

definition flatNodesKept :: "Profile \<Rightarrow> Profile \<Rightarrow> bool" where
  "flatNodesKept p p1 =
     (p1 = p\<lparr>nodes := nodes p1\<rparr> \<and> list_all2 childrenDefaulted (nodes p) (nodes p1))"

lemma flatNodesKept_refl: "flatNodesKept p p"
  by (simp add: flatNodesKept_def childrenDefaulted_def list_all2_refl)

lemma childrenDefaulted_trans:
  "childrenDefaulted a b \<Longrightarrow> childrenDefaulted b c \<Longrightarrow> childrenDefaulted a c"
  by (auto simp: childrenDefaulted_def)

lemma flatNodesKept_trans:
  assumes "flatNodesKept p p1" and "flatNodesKept p1 p2"
  shows "flatNodesKept p p2"
proof -
  have "list_all2 childrenDefaulted (nodes p) (nodes p2)"
    using assms childrenDefaulted_trans
    by (auto simp: flatNodesKept_def elim: list_all2_trans [rotated])
  moreover have "p2 = p\<lparr>nodes := nodes p2\<rparr>"
  proof -
    have "p2 = p1\<lparr>nodes := nodes p2\<rparr>" and "p1 = p\<lparr>nodes := nodes p1\<rparr>"
      using assms by (simp_all add: flatNodesKept_def)
    then have "p2 = (p\<lparr>nodes := nodes p1\<rparr>)\<lparr>nodes := nodes p2\<rparr>"
      by simp
    then show ?thesis by simp
  qed
  ultimately show ?thesis
    by (simp add: flatNodesKept_def)
qed

lemma flatNodesKept_defaultChildren: "flatNodesKept p (defaultChildren p i)"
proof (cases "children (nodes p ! i) = None \<and> i < length (nodes p)")
  case True
  then have "list_all2 childrenDefaulted (nodes p) ((nodes p)[i := (nodes p ! i)\<lparr>children := Some []\<rparr>])"
    by (simp add: list_all2_conv_all_nth nth_list_update childrenDefaulted_def)
  with True show ?thesis
    by (simp add: flatNodesKept_def defaultChildren_def)
next
  case False
  then have "defaultChildren p i = p"
    by (auto simp: defaultChildren_def list_update_beyond)
  then show ?thesis
    by (simp add: flatNodesKept_refl)
qed

lemma flatNodesKept_childrenSet:
  assumes "flatNodesKept p p1" and "childrenSet p"
  shows "p1 = p"
proof -
  have all: "list_all2 childrenDefaulted (nodes p) (nodes p1)"
    using assms(1) by (simp add: flatNodesKept_def)
  have "nodes p1 = nodes p"
  proof (rule nth_equalityI)
    show "length (nodes p1) = length (nodes p)"
      using all by (auto dest: list_all2_lengthD)
    fix i
    assume "i < length (nodes p1)"
    then have "childrenDefaulted (nodes p ! i) (nodes p1 ! i)" and "nodes p ! i \<in> set (nodes p)"
      using all by (auto simp: list_all2_conv_all_nth)
    then show "nodes p1 ! i = nodes p ! i"
      using assms(2) by (auto simp: childrenSet_def childrenDefaulted_def)
  qed
  then show ?thesis
    using assms(1) by (simp add: flatNodesKept_def)
qed

lemma translateLoop_kept:
  assumes "translateLoop p t pairs = Some (p1, r)"
  shows "flatNodesKept p p1"
proof -
  have "\<forall>p0. flatNodesKept p0 p \<longrightarrow> flatNodesKept p0 (fst (p1, r))"
  proof (induct rule: translateLoop.raw_induct [OF _ assms])
    case (1 loop p t pairs y)
    show ?case
    proof (intro allI impI)
      fix p0
      assume kept: "flatNodesKept p0 p"
      show "flatNodesKept p0 (fst y)"
      proof (cases pairs)
        case Nil
        with 1(2) kept show ?thesis by auto
      next
        case (Cons pair rest)
        obtain parentNode sourceNode where pair: "pair = (parentNode, sourceNode)"
          by (cases pair)
        show ?thesis
        proof (cases sourceNode)
          case None
          with 1(2) Cons pair kept show ?thesis by auto
        next
          case (Some i)
          obtain p2 t2 pairs2 where step: "translateStep p t parentNode i rest = (p2, t2, pairs2)"
            by (cases "translateStep p t parentNode i rest")
          then have "p2 = defaultChildren p i"
            by (simp add: translateStep_eq)
          then have "flatNodesKept p0 p2"
            using kept flatNodesKept_defaultChildren [of p i] by (auto intro: flatNodesKept_trans)
          moreover have "loop p2 t2 pairs2 = Some y"
            using 1(2) Cons pair Some step by simp
          ultimately show ?thesis
            using 1(1) by blast
        qed
      qed
    qed
  qed
  then show ?thesis
    using flatNodesKept_refl by auto
qed

lemma translatedRoot_kept:
  assumes "translatedRoot p = Some (p1, r)"
  shows "flatNodesKept p p1"
proof (cases "nodes p")
  case Nil
  with assms show ?thesis by (simp add: translatedRoot_def flatNodesKept_refl)
next
  case (Cons originalRoot others)
  show ?thesis
  proof (cases "children originalRoot")
    case None
    with assms Cons show ?thesis by (simp add: translatedRoot_def flatNodesKept_refl)
  next
    case (Some cs)
    obtain r0 where "translateLoop p (cloneWithoutChildren originalRoot)
        (rev (map (\<lambda>childId. ([], idToNodeMap p childId)) cs)) = Some (p1, r0)"
      using assms Cons Some
      by (auto simp: translatedRoot_def split: option.splits sum.splits prod.splits)
    then show ?thesis by (rule translateLoop_kept)
  qed
qed

lemma remainingNodeInfos_kept:
  assumes "remainingNodeInfos p = Some (p1, r)"
  shows "flatNodesKept p p1"
proof -
  obtain r0 where "translatedRoot p = Some (p1, r0)"
    using assms
    by (auto simp: remainingNodeInfos_def Let_def split: option.splits sum.splits prod.splits)
  then show ?thesis by (rule translatedRoot_kept)
qed

lemma bottomUpNodes_kept:
  assumes "bottomUpNodes p = Some (p1, r)"
  shows "flatNodesKept p p1"
proof -
  obtain r0 where "remainingNodeInfos p = Some (p1, r0)"
    using assms
    by (auto simp: bottomUpNodes_def split: option.splits sum.splits prod.splits)
  then show ?thesis by (rule remainingNodeInfos_kept)
qed

lemma formattedBottomUpProfile_kept:
  assumes "formattedBottomUpProfile p = Some (p1, r)"
  shows "flatNodesKept p p1"
proof -
  obtain r0 where "bottomUpNodes p = Some (p1, r0)"
    using assms
    by (auto simp: formattedBottomUpProfile_def split: option.splits sum.splits prod.splits)
  then show ?thesis by (rule bottomUpNodes_kept)
qed

lemma childrenDefaulted_fields:
  assumes "childrenDefaulted node node1"
  shows "nid node1 = nid node" and "callFrame node1 = callFrame node"
    and "hitCount node1 = hitCount node" and "selfTime node1 = selfTime node"
    and "children node \<noteq> None \<Longrightarrow> children node1 = children node"
    and "children node = None \<Longrightarrow> children node1 = None \<or> children node1 = Some []"
  using assms by (auto simp: childrenDefaulted_def)

text \<open>
  C10 as the code has it. Whatever \<open>translatedRoot\<close>, \<open>remainingNodeInfos\<close>,
  \<open>bottomUpNodes\<close> and \<open>formattedBottomUpProfile\<close> return, they leave the profile as
  they found it but for the \<open>children\<close> of flat nodes that had none, which may have
  become the empty list: the id, the call frame, the hit count, the self time and a
  list of children that is there are the same after the call. On a profile whose flat
  nodes all have their \<open>children\<close>, nothing is written.
\<close>

theorem flat_nodes_keep_all_but_unset_children:
  "(translatedRoot p = Some (p1, r1) \<longrightarrow> flatNodesKept p p1 \<and> (childrenSet p \<longrightarrow> p1 = p))
   \<and> (remainingNodeInfos p = Some (p2, r2) \<longrightarrow> flatNodesKept p p2 \<and> (childrenSet p \<longrightarrow> p2 = p))
   \<and> (bottomUpNodes p = Some (p3, r3) \<longrightarrow> flatNodesKept p p3 \<and> (childrenSet p \<longrightarrow> p3 = p))
   \<and> (formattedBottomUpProfile p = Some (p4, r4) \<longrightarrow> flatNodesKept p p4 \<and> (childrenSet p \<longrightarrow> p4 = p))
   \<and> (flatNodesKept p q \<longrightarrow>
        length (nodes q) = length (nodes p)
        \<and> (\<forall>i<length (nodes p).
              nid (nodes q ! i) = nid (nodes p ! i)
              \<and> callFrame (nodes q ! i) = callFrame (nodes p ! i)
              \<and> hitCount (nodes q ! i) = hitCount (nodes p ! i)
              \<and> selfTime (nodes q ! i) = selfTime (nodes p ! i)
              \<and> (children (nodes p ! i) \<noteq> None \<longrightarrow> children (nodes q ! i) = children (nodes p ! i))
              \<and> (children (nodes p ! i) = None \<longrightarrow>
                    children (nodes q ! i) = None \<or> children (nodes q ! i) = Some [])))"
proof (intro conjI impI allI)
  assume "translatedRoot p = Some (p1, r1)"
  then show kept: "flatNodesKept p p1"
    by (rule translatedRoot_kept)
  show "p1 = p" if "childrenSet p"
    using kept that by (rule flatNodesKept_childrenSet)
next
  assume "remainingNodeInfos p = Some (p2, r2)"
  then show kept: "flatNodesKept p p2"
    by (rule remainingNodeInfos_kept)
  show "p2 = p" if "childrenSet p"
    using kept that by (rule flatNodesKept_childrenSet)
next
  assume "bottomUpNodes p = Some (p3, r3)"
  then show kept: "flatNodesKept p p3"
    by (rule bottomUpNodes_kept)
  show "p3 = p" if "childrenSet p"
    using kept that by (rule flatNodesKept_childrenSet)
next
  assume "formattedBottomUpProfile p = Some (p4, r4)"
  then show kept: "flatNodesKept p p4"
    by (rule formattedBottomUpProfile_kept)
  show "p4 = p" if "childrenSet p"
    using kept that by (rule flatNodesKept_childrenSet)
next
  assume kept: "flatNodesKept p q"
  then show "length (nodes q) = length (nodes p)"
    by (auto simp: flatNodesKept_def dest: list_all2_lengthD)
  fix i
  assume "i < length (nodes p)"
  then have node: "childrenDefaulted (nodes p ! i) (nodes q ! i)"
    using kept by (simp add: flatNodesKept_def list_all2_conv_all_nth)
  show "nid (nodes q ! i) = nid (nodes p ! i)"
    and "callFrame (nodes q ! i) = callFrame (nodes p ! i)"
    and "hitCount (nodes q ! i) = hitCount (nodes p ! i)"
    and "selfTime (nodes q ! i) = selfTime (nodes p ! i)"
    using node by (rule childrenDefaulted_fields)+
  show "children (nodes q ! i) = children (nodes p ! i)" if "children (nodes p ! i) \<noteq> None"
    using node that by (rule childrenDefaulted_fields)
  show "children (nodes q ! i) = None \<or> children (nodes q ! i) = Some []"
    if "children (nodes p ! i) = None"
    using node that by (rule childrenDefaulted_fields)
qed

theorem flat_nodes_keep_all_but_unset_children_witness:
  "(\<exists>p1 r. formattedBottomUpProfile unsetProfile = Some (p1, r) \<and> flatNodesKept unsetProfile p1
        \<and> length (nodes p1) = 2 \<and> hitCount (nodes p1 ! 1) = 4 \<and> children (nodes p1 ! 0) = Some [2])
   \<and> childrenSet recursiveProfile
   \<and> translatedRoot recursiveProfile = Some (recursiveProfile, Inr recursiveTree)
   \<and> (\<exists>r. remainingNodeInfos recursiveProfile = Some (recursiveProfile, r))
   \<and> (\<exists>r. bottomUpNodes recursiveProfile = Some (recursiveProfile, r))
   \<and> (\<exists>r. formattedBottomUpProfile recursiveProfile = Some (recursiveProfile, r))"
proof -
  note only_children = flat_nodes_keep_all_but_unset_children
  have nodes: "nodes unsetProfile = map (\<lambda>node. node\<lparr>selfTime := selfTime node\<rparr>) (nodes unsetProfile)"
    by simp
  have len: "length (nodes unsetProfile) = 2" and hits: "hitCount (nodes unsetProfile ! 1) = 4"
    and kids: "children (nodes unsetProfile ! 0) = Some [2]"
    by (simp_all add: unsetProfile_def unsetNodes_def nodes_Profile_new nodeObject_def
        ProfileNode_createFromObject_def NodeFields.extend_def ProfileNode.fields_def newFields_def)
  obtain q r where unset: "formattedBottomUpProfile unsetProfile = Some (q, r)"
    using formatted_unsetProfile by (cases "formattedBottomUpProfile unsetProfile") auto
  then have kept: "flatNodesKept unsetProfile q"
    using only_children [of unsetProfile _ _ _ _ _ _ q r] by blast
  then have "length (nodes q) = 2 \<and> hitCount (nodes q ! 1) = 4 \<and> children (nodes q ! 0) = Some [2]"
    using only_children [of unsetProfile _ _ _ _ _ _ _ _ q] len hits kids by simp
  with unset kept have 1: "\<exists>p1 r. formattedBottomUpProfile unsetProfile = Some (p1, r)
      \<and> flatNodesKept unsetProfile p1
      \<and> length (nodes p1) = 2 \<and> hitCount (nodes p1 ! 1) = 4 \<and> children (nodes p1 ! 0) = Some [2]"
    by blast
  have set: "childrenSet recursiveProfile"
    unfolding recursiveProfile_def by (rule childrenSet_createFromObject)
  obtain f4 r4 where f: "formattedBottomUpProfile recursiveProfile = Some (f4, r4)"
    using formatted_recursiveProfile by (cases "formattedBottomUpProfile recursiveProfile") auto
  then obtain f3 r3 where b: "bottomUpNodes recursiveProfile = Some (f3, r3)"
    by (auto simp: formattedBottomUpProfile_def split: option.splits)
  then obtain f2 r2 where rm: "remainingNodeInfos recursiveProfile = Some (f2, r2)"
    by (auto simp: bottomUpNodes_def split: option.splits)
  obtain f1 where tr: "translatedRoot recursiveProfile = Some (f1, Inr recursiveTree)"
    using translatedRoot_recursiveProfile by (cases "translatedRoot recursiveProfile") auto
  have "f1 = recursiveProfile" "f2 = recursiveProfile" "f3 = recursiveProfile" "f4 = recursiveProfile"
    using only_children [of recursiveProfile f1 "Inr recursiveTree" f2 r2 f3 r3 f4 r4] set tr rm b f
    by simp_all
  with tr rm b f have 2: "translatedRoot recursiveProfile = Some (recursiveProfile, Inr recursiveTree)"
    and 3: "\<exists>r. remainingNodeInfos recursiveProfile = Some (recursiveProfile, r)"
    and 4: "\<exists>r. bottomUpNodes recursiveProfile = Some (recursiveProfile, r)"
    and 5: "\<exists>r. formattedBottomUpProfile recursiveProfile = Some (recursiveProfile, r)"
    by simp_all
  show ?thesis
    using 1 set 2 3 4 5 by blast
qed

text \<open>
  C10 as the specification states it fails. \<open>unsetProfile\<close> is a profile that the
  constructor made; its second flat node has no \<open>children\<close>. After \<open>translatedRoot\<close>,
  and after \<open>formattedBottomUpProfile\<close>, the \<open>children\<close> of that flat node are the empty
  list.
\<close>

theorem unset_children_counterexample:
  "map children (nodes unsetProfile) = [Some [2], None]
   \<and> map_option (map children \<circ> nodes \<circ> fst) (translatedRoot unsetProfile) = Some [Some [2], Some []]
   \<and> map_option (map children \<circ> nodes \<circ> fst) (formattedBottomUpProfile unsetProfile)
       = Some [Some [2], Some []]"
proof -
  have "map children (nodes unsetProfile) = [Some [2], None]"
    by (simp add: unsetProfile_def unsetNodes_def nodes_Profile_new nodeObject_def
        ProfileNode_createFromObject_def NodeFields.extend_def ProfileNode.fields_def newFields_def)
  then show ?thesis
    using translatedRoot_unsetProfile formatted_unsetProfile by simp
qed

text \<open>
  C9. On a profile made by \<open>createFromObject\<close>, a second call of \<open>bottomUpNodes\<close> or of
  \<open>formattedBottomUpProfile\<close>, on the profile as the first call left it, gives the
  result of the first call again.
\<close>

theorem aggregation_is_idempotent:
  "(\<forall>p1 r. bottomUpNodes (Profile_createFromObject obj) = Some (p1, r)
       \<longrightarrow> bottomUpNodes p1 = Some (p1, r))
   \<and> (\<forall>p1 r. formattedBottomUpProfile (Profile_createFromObject obj) = Some (p1, r)
       \<longrightarrow> formattedBottomUpProfile p1 = Some (p1, r))"
proof (intro conjI allI impI)
  fix p1 r
  assume first: "bottomUpNodes (Profile_createFromObject obj) = Some (p1, r)"
  then have "p1 = Profile_createFromObject obj"
    using childrenSet_createFromObject mapInRange_createFromObject by (rule bottomUpNodes_frame)
  with first show "bottomUpNodes p1 = Some (p1, r)" by simp
next
  fix p1 r
  assume first: "formattedBottomUpProfile (Profile_createFromObject obj) = Some (p1, r)"
  then have "p1 = Profile_createFromObject obj"
    using childrenSet_createFromObject mapInRange_createFromObject
    by (rule formattedBottomUpProfile_frame)
  with first show "formattedBottomUpProfile p1 = Some (p1, r)" by simp
qed

theorem aggregation_is_idempotent_witness:
  "\<exists>p1. formattedBottomUpProfile recursiveProfile = Some (p1,
      Inr [\<lparr>fmt_functionName = ''A'', fmt_selfTime = Number (3/2), fmt_totalTime = Number 2\<rparr>,
           \<lparr>fmt_functionName = ''B'', fmt_selfTime = Number (1/2), fmt_totalTime = Number 1\<rparr>])
    \<and> formattedBottomUpProfile p1 = Some (p1,
      Inr [\<lparr>fmt_functionName = ''A'', fmt_selfTime = Number (3/2), fmt_totalTime = Number 2\<rparr>,
           \<lparr>fmt_functionName = ''B'', fmt_selfTime = Number (1/2), fmt_totalTime = Number 1\<rparr>])"
proof -
  let ?out = "Inr [\<lparr>fmt_functionName = ''A'', fmt_selfTime = Number (3/2), fmt_totalTime = Number 2\<rparr>,
           \<lparr>fmt_functionName = ''B'', fmt_selfTime = Number (1/2), fmt_totalTime = Number 1\<rparr>]"
  obtain p1 where first: "formattedBottomUpProfile recursiveProfile = Some (p1, ?out)"
    using formatted_recursiveProfile by (cases "formattedBottomUpProfile recursiveProfile") auto
  then have "formattedBottomUpProfile p1 = Some (p1, ?out)"
    using aggregation_is_idempotent [of "profileObject recursiveNodes 0 2000"]
    unfolding recursiveProfile_def by blast
  with first show ?thesis by blast
qed

section \<open>Degenerate profiles\<close>

lemma division_by_zero_not_finite: "\<not> isFinite (x / toNumber 0)"
  by (cases x) (simp_all add: divide_jsnum_def toNumber_def isFinite_def)

lemma selfTime_not_finite:
  "\<not> isFinite x \<Longrightarrow> \<not> isFinite ((toNumber h * x) / Number 1000)"
  by (cases x) (simp_all add: divide_jsnum_def times_jsnum_def toNumber_def isFinite_def)

lemma zero_hits_not_finite:
  assumes "sum_list (map hitCount ns) = 0"
  shows "\<not> isFinite (samplingInterval (Profile_new ns st en sm td))"
    and "\<forall>node\<in>set (nodes (Profile_new ns st en sm td)). \<not> isFinite (selfTime node)"
proof -
  show "\<not> isFinite (samplingInterval (Profile_new ns st en sm td))"
    using assms by (simp add: samplingInterval_Profile_new division_by_zero_not_finite)
  have "\<not> isFinite ((toNumber h * ((en - st) / toNumber 0)) / Number 1000)" for h
    by (rule selfTime_not_finite) (rule division_by_zero_not_finite)
  then show "\<forall>node\<in>set (nodes (Profile_new ns st en sm td)). \<not> isFinite (selfTime node)"
    using assms by (auto simp: nodes_Profile_new)
qed

lemma backwards_interval:
  assumes "0 < sum_list (map hitCount ns)" and "e < s"
  shows "\<exists>x<0. samplingInterval (Profile_new ns (Number s) (Number e) sm td) = Number x"
proof -
  have "samplingInterval (Profile_new ns (Number s) (Number e) sm td)
      = Number ((e - s) / of_int (sum_list (map hitCount ns)))"
    using assms(1) by (simp add: samplingInterval_Profile_new finite_interval)
  moreover have "(e - s) / of_int (sum_list (map hitCount ns)) < 0"
    using assms by (simp add: divide_neg_pos)
  ultimately show ?thesis by blast
qed

lemma translateLoop_dangling:
  assumes "translateLoop p t pairs = Some (p1, r)" and "(parentNode, None) \<in> set pairs"
  shows "r = Inl TypeError"
proof -
  have "(\<exists>parentNode. (parentNode, None) \<in> set pairs) \<longrightarrow> snd (p1, r) = Inl TypeError"
  proof (induct rule: translateLoop.raw_induct [OF _ assms(1)])
    case (1 loop p t pairs y)
    show ?case
    proof (intro impI)
      assume dangling: "\<exists>parentNode. (parentNode, None) \<in> set pairs"
      then obtain pair rest where pairs: "pairs = pair # rest"
        by (cases pairs) auto
      obtain parentNode sourceNode where pair: "pair = (parentNode, sourceNode)"
        by (cases pair)
      show "snd y = Inl TypeError"
      proof (cases sourceNode)
        case None
        with 1(2) pairs pair show ?thesis by auto
      next
        case (Some i)
        obtain p2 t2 pairs2 where step: "translateStep p t parentNode i rest = (p2, t2, pairs2)"
          by (cases "translateStep p t parentNode i rest")
        have "\<exists>parentNode. (parentNode, None) \<in> set rest"
          using dangling pairs pair Some by auto
        moreover have "set rest \<subseteq> set pairs2"
          using step by (auto simp: translateStep_def Let_def)
        ultimately have "\<exists>parentNode. (parentNode, None) \<in> set pairs2"
          by blast
        moreover have "loop p2 t2 pairs2 = Some y"
          using 1(2) pairs pair Some step by simp
        ultimately show ?thesis
          using 1(1) by blast
      qed
    qed
  qed
  with assms(2) show ?thesis by auto
qed

text \<open>
  C4 as the code has it. Nothing is validated and there is no \<open>InvalidProfile\<close>. With
  a total hit count of zero the constructor returns a profile whose sampling interval
  and self times are not finite. With the end before the start (and a positive total
  hit count) the sampling interval is a negative number. Once a child id that does not
  resolve is on the work list of \<open>translatedRoot\<close>, the loop cannot end with a tree: if
  it ends, it ends with a \<open>TypeError\<close>.
\<close>

theorem degenerate_profiles_are_not_rejected:
  "(sum_list (map hitCount ns) = 0 \<longrightarrow>
      \<not> isFinite (samplingInterval (Profile_new ns st en sm td))
      \<and> (\<forall>node\<in>set (nodes (Profile_new ns st en sm td)). \<not> isFinite (selfTime node)))
   \<and> (0 < sum_list (map hitCount ns) \<and> e < s \<longrightarrow>
      (\<exists>x<0. samplingInterval (Profile_new ns (Number s) (Number e) sm td) = Number x))
   \<and> (translateLoop p t pairs = Some (p1, r) \<and> (\<exists>parentNode. (parentNode, None) \<in> set pairs) \<longrightarrow>
      r = Inl TypeError)"
proof (intro conjI impI)
  assume "sum_list (map hitCount ns) = 0"
  then show "\<not> isFinite (samplingInterval (Profile_new ns st en sm td))"
    and "\<forall>node\<in>set (nodes (Profile_new ns st en sm td)). \<not> isFinite (selfTime node)"
    by (rule zero_hits_not_finite)+
next
  assume "0 < sum_list (map hitCount ns) \<and> e < s"
  then show "\<exists>x<0. samplingInterval (Profile_new ns (Number s) (Number e) sm td) = Number x"
    using backwards_interval by blast
next
  assume "translateLoop p t pairs = Some (p1, r) \<and> (\<exists>parentNode. (parentNode, None) \<in> set pairs)"
  then show "r = Inl TypeError"
    using translateLoop_dangling by blast
qed

theorem degenerate_profiles_are_not_rejected_witness:
  "sum_list (map hitCount (map ProfileNode_createFromObject zeroHitNodes)) = 0
   \<and> \<not> isFinite (samplingInterval zeroHitProfile)
   \<and> 0 < sum_list (map hitCount (map ProfileNode_createFromObject recursiveNodes))
   \<and> (\<exists>x<0. samplingInterval backwardsProfile = Number x)
   \<and> (\<exists>p1. translateLoop danglingProfile (cloneWithoutChildren (hd (nodes danglingProfile)))
               [([], Some 1), ([], None)] = Some (p1, Inl TypeError))"
proof -
  let ?zs = "map ProfileNode_createFromObject zeroHitNodes"
  let ?rs = "map ProfileNode_createFromObject recursiveNodes"
  let ?loop = "translateLoop danglingProfile (cloneWithoutChildren (hd (nodes danglingProfile)))
               [([], Some 1), ([], None)]"
  have zero: "sum_list (map hitCount ?zs) = 0"
    by (simp add: zeroHitNodes_def example_defs)
  have pos: "0 < sum_list (map hitCount ?rs)"
    by (simp add: example_defs)
  have zp: "zeroHitProfile = Profile_new ?zs (Number 0) (Number 2000) [] []"
    by (simp add: zeroHitProfile_def Profile_createFromObject_def profileObject_def)
  have bp: "backwardsProfile = Profile_new ?rs (Number 2000) (Number 0) [] []"
    by (simp add: backwardsProfile_def Profile_createFromObject_def profileObject_def)
  have 1: "\<not> isFinite (samplingInterval zeroHitProfile)"
    using degenerate_profiles_are_not_rejected [of ?zs "Number 0" "Number 2000" "[]" "[]"] zero
    unfolding zp by blast
  have 2: "\<exists>x<0. samplingInterval backwardsProfile = Number x"
    using degenerate_profiles_are_not_rejected [of ?rs _ _ "[]" "[]" 0 2000] pos
    unfolding bp by simp
  obtain p1 r where loop: "?loop = Some (p1, r)"
    using translateLoop_danglingProfile by (cases ?loop) auto
  have "r = Inl TypeError"
    using degenerate_profiles_are_not_rejected
      [of _ _ _ _ _ _ _ danglingProfile "cloneWithoutChildren (hd (nodes danglingProfile))"
        "[([], Some 1), ([], None)]" p1 r] loop
    by auto
  with loop have 3: "\<exists>p1. ?loop = Some (p1, Inl TypeError)"
    by blast
  show ?thesis
    using zero 1 pos 2 3 by blast
qed

text \<open>
  C4 as the specification states it fails: the profile without a hit is constructed
  and aggregated, and \<open>NaN\<close> is what \<open>formattedBottomUpProfile\<close> returns for the times of
  A; the profile that ends before it starts is aggregated to negative times.
\<close>

theorem invalid_profile_counterexample:
  "sum_list (map obj_hitCount zeroHitNodes) = 0
   \<and> samplingInterval zeroHitProfile = Infinity
   \<and> map_option snd (formattedBottomUpProfile zeroHitProfile) =
       Some (Inr [\<lparr>fmt_functionName = ''A'', fmt_selfTime = NaN, fmt_totalTime = NaN\<rparr>])
   \<and> map_option snd (formattedBottomUpProfile backwardsProfile) =
       Some (Inr [\<lparr>fmt_functionName = ''A'', fmt_selfTime = Number (- 3/2), fmt_totalTime = Number (- 2)\<rparr>,
                  \<lparr>fmt_functionName = ''B'', fmt_selfTime = Number (- 1/2), fmt_totalTime = Number (- 1)\<rparr>])"
proof -
  have "sum_list (map obj_hitCount zeroHitNodes) = 0"
    by (simp add: zeroHitNodes_def nodeObject_def)
  moreover have "samplingInterval zeroHitProfile = Infinity"
    by (simp add: zeroHitProfile_def zeroHitNodes_def example_defs samplingInterval_Profile_new
        minus_jsnum_def divide_jsnum_def toNumber_def)
  ultimately show ?thesis
    using formatted_zeroHitProfile formatted_backwardsProfile by simp
qed

section \<open>What every node of a translated tree satisfies\<close>

fun treeAll :: "(NodeFields \<Rightarrow> bool) \<Rightarrow> TreeNode \<Rightarrow> bool" where
  "treeAll P (TreeNode d cs) = (P d \<and> list_all (treeAll P) cs)"

lemma treeAll_nodeAt: "treeAll P node \<Longrightarrow> P (fieldsOf (nodeAt node path))"
proof (induction path arbitrary: node)
  case Nil
  then show ?case by (cases node) simp
next
  case (Cons j path)
  show ?case
  proof (cases node)
    case (TreeNode d cs)
    with Cons.prems have "j < length cs \<Longrightarrow> treeAll P (cs ! j)"
      by (simp add: list_all_length)
    with Cons.IH Cons.prems TreeNode show ?thesis by auto
  qed
qed

lemma treeAll_modifyAt:
  assumes "\<And>node. treeAll P node \<Longrightarrow> treeAll P (f node)"
  shows "treeAll P node \<Longrightarrow> treeAll P (modifyAt f path node)"
proof (induction path arbitrary: node)
  case Nil
  then show ?case by (simp add: assms)
next
  case (Cons j path)
  show ?case
  proof (cases node)
    case (TreeNode d cs)
    show ?thesis
    proof (cases "j < length cs")
      case True
      with Cons.prems TreeNode have "treeAll P (modifyAt f path (cs ! j))"
        by (intro Cons.IH) (simp add: list_all_length)
      with Cons.prems TreeNode True show ?thesis
        by (auto simp: list_all_length nth_list_update)
    next
      case False
      with Cons.prems TreeNode show ?thesis by simp
    qed
  qed
qed

lemma treeAll_pushChild:
  "treeAll P child \<Longrightarrow> treeAll P node \<Longrightarrow> treeAll P (pushChild child node)"
  by (cases node) (simp add: pushChild_def)

lemma treeAll_updateFields:
  "(\<And>d. P d \<Longrightarrow> P (g d)) \<Longrightarrow> treeAll P node \<Longrightarrow> treeAll P (updateFields g node)"
  by (cases node) (simp add: updateFields_def)

lemma treeAll_mapFields:
  "(\<And>d. P (h d) = P d) \<Longrightarrow> treeAll P (mapFields h node) = treeAll P node"
  by (induction node) (simp add: list_all_iff)

lemma treeAll_sumTotal:
  "(\<And>d x. P (d\<lparr>totalTime := x\<rparr>) = P d) \<Longrightarrow> treeAll P (sumTotal node) = treeAll P node"
  by (induction node) (simp add: Let_def list_all_iff)

text \<open>
  A property of the fields that every clone has and that a new self time does not
  change holds for all nodes that the loop of \<open>translatedRoot\<close> adds. The clone need
  only have it when its source node is no native node.
\<close>

definition belowRoot :: "(NodeFields \<Rightarrow> bool) \<Rightarrow> TreeNode \<Rightarrow> bool" where
  "belowRoot P node = list_all (treeAll P) (treeChildren node)"

lemma belowRoot_modifyAt:
  assumes "\<And>node. treeAll P node \<Longrightarrow> treeAll P (f node)"
    and "\<And>node. belowRoot P node \<Longrightarrow> belowRoot P (f node)"
  shows "belowRoot P node \<Longrightarrow> belowRoot P (modifyAt f path node)"
proof (cases path)
  case Nil
  then show "belowRoot P node \<Longrightarrow> belowRoot P (modifyAt f path node)"
    by (simp add: assms(2))
next
  case (Cons j rest)
  assume below: "belowRoot P node"
  show "belowRoot P (modifyAt f path node)"
  proof (cases node)
    case (TreeNode d cs)
    show ?thesis
    proof (cases "j < length cs")
      case True
      with below TreeNode have "treeAll P (modifyAt f rest (cs ! j))"
        by (intro treeAll_modifyAt assms(1)) (simp_all add: belowRoot_def list_all_length)
      with below TreeNode True Cons show ?thesis
        by (auto simp: belowRoot_def list_all_length nth_list_update)
    next
      case False
      with below TreeNode Cons show ?thesis by simp
    qed
  qed
qed

lemma stepTree_belowRoot:
  assumes "\<And>node :: ProfileNode. \<not> isNativeNode node \<Longrightarrow> P (fieldsOf (cloneWithoutChildren node))"
    and "\<And>d x. P d \<Longrightarrow> P (d\<lparr>selfTime := x\<rparr>)"
    and "belowRoot P t"
  shows "belowRoot P (stepTree p t parentNode i)"
proof (cases "isNativeNode (nodes p ! i)")
  case False
  then have child: "treeAll P (cloneWithoutChildren (nodes p ! i))"
    using assms(1) [of "nodes p ! i"] by (simp add: cloneWithoutChildren_def)
  have "belowRoot P (modifyAt (pushChild (cloneWithoutChildren (nodes p ! i))) parentNode t)"
    using assms(3)
  proof (rule belowRoot_modifyAt [rotated 2])
    show "treeAll P (pushChild (cloneWithoutChildren (nodes p ! i)) node)" if "treeAll P node" for node
      using child that by (rule treeAll_pushChild)
    show "belowRoot P (pushChild (cloneWithoutChildren (nodes p ! i)) node)" if "belowRoot P node" for node
      using child that by (cases node) (simp add: belowRoot_def pushChild_def)
  qed
  with False show ?thesis by (simp add: stepTree_def)
next
  case True
  let ?g = "\<lambda>d. d\<lparr>selfTime := selfTime d + selfTime (nodes p ! i)\<rparr>"
  have "belowRoot P (modifyAt (updateFields ?g) parentNode t)"
    using assms(3)
  proof (rule belowRoot_modifyAt [rotated 2])
    show "treeAll P (updateFields ?g node)" if "treeAll P node" for node
      using that by (intro treeAll_updateFields assms(2))
    show "belowRoot P (updateFields ?g node)" if "belowRoot P node" for node
      using that by (simp add: belowRoot_def updateFields_def)
  qed
  with True show ?thesis by (simp add: stepTree_def)
qed

text \<open>Partial correctness of the loop of \<open>translatedRoot\<close>: an invariant of its body.\<close>

lemma translateLoop_invariant:
  assumes "translateLoop p t pairs = Some (p1, Inr t1)"
    and "\<And>p t parentNode i rest p2 t2 pairs2.
          I p t ((parentNode, Some i) # rest) \<Longrightarrow>
          translateStep p t parentNode i rest = (p2, t2, pairs2) \<Longrightarrow> I p2 t2 pairs2"
    and "I p t pairs"
  shows "I p1 t1 []"
proof -
  have "I p t pairs \<longrightarrow> (\<forall>q u. (p1, (Inr t1 :: error + TreeNode)) = (q, Inr u) \<longrightarrow> I q u [])"
  proof (induct rule: translateLoop.raw_induct [OF _ assms(1)])
    case (1 loop p t pairs y)
    show ?case
    proof (intro impI allI)
      fix q u
      assume inv: "I p t pairs" and y: "y = (q, Inr u)"
      show "I q u []"
      proof (cases pairs)
        case Nil
        with 1(2) y inv show ?thesis by auto
      next
        case (Cons pair rest)
        obtain parentNode sourceNode where pair: "pair = (parentNode, sourceNode)"
          by (cases pair)
        show ?thesis
        proof (cases sourceNode)
          case None
          with 1(2) Cons pair y show ?thesis by auto
        next
          case (Some i)
          obtain p2 t2 pairs2 where step: "translateStep p t parentNode i rest = (p2, t2, pairs2)"
            by (cases "translateStep p t parentNode i rest")
          have "I p2 t2 pairs2"
            using inv step unfolding Cons pair Some by (rule assms(2))
          moreover have "loop p2 t2 pairs2 = Some y"
            using 1(2) Cons pair Some step by simp
          ultimately show ?thesis
            using 1(1) y by blast
        qed
      qed
    qed
  qed
  with assms(3) show ?thesis by simp
qed

lemma translateLoop_belowRoot:
  assumes "translateLoop p t pairs = Some (p1, Inr t1)"
    and "\<And>node :: ProfileNode. \<not> isNativeNode node \<Longrightarrow> P (fieldsOf (cloneWithoutChildren node))"
    and "\<And>d x. P d \<Longrightarrow> P (d\<lparr>selfTime := x\<rparr>)"
    and "belowRoot P t"
  shows "belowRoot P t1"
  using assms(1)
proof (rule translateLoop_invariant [where I = "\<lambda>p t pairs. belowRoot P t"])
  show "belowRoot P t" by (rule assms(4))
  show "belowRoot P t2"
    if "belowRoot P t" "translateStep p t parentNode i rest = (p2, t2, pairs2)"
    for p t parentNode i rest p2 t2 pairs2
    using that(2) stepTree_belowRoot [OF assms(2,3) that(1), of p parentNode i]
    by (auto simp: translateStep_eq)
qed

lemma translateLoop_root:
  assumes "translateLoop p t pairs = Some (p1, Inr t1)"
    and "\<And>d x. P d \<Longrightarrow> P (d\<lparr>selfTime := x\<rparr>)"
    and "P (fieldsOf t)"
  shows "P (fieldsOf t1)"
  using assms(1)
proof (rule translateLoop_invariant [where I = "\<lambda>p t pairs. P (fieldsOf t)"])
  show "P (fieldsOf t)" by (rule assms(3))
  show "P (fieldsOf t2)"
    if "P (fieldsOf t)" "translateStep p t parentNode i rest = (p2, t2, pairs2)"
    for p t parentNode i rest p2 t2 pairs2
  proof -
    have "P (fieldsOf (modifyAt (pushChild c) parentNode t))" for c
      using that(1) by (cases t; cases parentNode) (simp_all add: pushChild_def)
    moreover have "P (fieldsOf (modifyAt (updateFields (\<lambda>d. d\<lparr>selfTime := selfTime d + x\<rparr>)) parentNode t))" for x
      using that(1) assms(2) by (cases t; cases parentNode) (simp_all add: updateFields_def)
    ultimately show ?thesis
      using that(2) by (auto simp: translateStep_eq stepTree_def split: if_splits)
  qed
qed

lemma treeAll_root_below: "treeAll P node = (P (fieldsOf node) \<and> belowRoot P node)"
  by (cases node) (simp add: belowRoot_def)

lemma translateLoop_treeAll:
  assumes "translateLoop p t pairs = Some (p1, Inr t1)"
    and "\<And>node :: ProfileNode. P (fieldsOf (cloneWithoutChildren node))"
    and "\<And>d x. P d \<Longrightarrow> P (d\<lparr>selfTime := x\<rparr>)"
    and "treeAll P t"
  shows "treeAll P t1"
  using translateLoop_belowRoot [OF assms(1), of P] translateLoop_root [OF assms(1), of P] assms(2-4)
  by (simp add: treeAll_root_below)

section \<open>Parents in the translated tree\<close>

lemma children_modifyAt_empty [simp]:
  "(treeChildren (nodeAt (modifyAt (updateFields g) path node) ref) = [])
     = (treeChildren (nodeAt node ref) = [])"
  using length_children_modifyAt [of g path node ref] by (simp only: length_0_conv [symmetric])

lemma assignChild_effect:
  "assignChild dep parentRef j (t, stack) =
     (modifyAt (updateFields (\<lambda>d. d\<lparr>depth := dep, parent := Some parentRef\<rparr>)) (parentRef @ [j]) t,
      if treeChildren (nodeAt t (parentRef @ [j])) \<noteq> [] then (parentRef @ [j]) # stack else stack)"
  by (simp add: assignChild_def Let_def)

lemma fold_assignChild_effect:
  assumes "fold (assignChild dep parentRef) js (t, stack) = (t1, stack1)"
  shows "(\<forall>path. validPath t1 path = validPath t path)
     \<and> (\<forall>path. length (treeChildren (nodeAt t1 path)) = length (treeChildren (nodeAt t path)))
     \<and> (\<forall>path. validPath t path \<longrightarrow>
           parent (fieldsOf (nodeAt t1 path))
             = (if \<exists>j\<in>set js. path = parentRef @ [j] then Some parentRef
                else parent (fieldsOf (nodeAt t path))))
     \<and> set stack1 = set stack \<union>
           {parentRef @ [j] |j. j \<in> set js \<and> treeChildren (nodeAt t (parentRef @ [j])) \<noteq> []}"
  using assms
proof (induction js arbitrary: t stack)
  case Nil
  then show ?case by simp
next
  case (Cons j js)
  let ?t2 = "modifyAt (updateFields (\<lambda>d. d\<lparr>depth := dep, parent := Some parentRef\<rparr>)) (parentRef @ [j]) t"
  let ?stack2 = "if treeChildren (nodeAt t (parentRef @ [j])) \<noteq> [] then (parentRef @ [j]) # stack else stack"
  have "fold (assignChild dep parentRef) js (?t2, ?stack2) = (t1, stack1)"
    using Cons.prems by (simp add: assignChild_effect)
  note ih = Cons.IH [OF this]
  have valid: "validPath t1 path = validPath t path" for path
    using ih by simp
  have len: "length (treeChildren (nodeAt t1 path)) = length (treeChildren (nodeAt t path))" for path
    using ih by simp
  have par: "parent (fieldsOf (nodeAt t1 path))
      = (if \<exists>k\<in>set (j # js). path = parentRef @ [k] then Some parentRef
         else parent (fieldsOf (nodeAt t path)))" if "validPath t path" for path
  proof -
    have "parent (fieldsOf (nodeAt t1 path))
        = (if \<exists>k\<in>set js. path = parentRef @ [k] then Some parentRef
           else parent (fieldsOf (nodeAt ?t2 path)))"
      using ih that by simp
    then show ?thesis
      using that by (auto simp: fieldsOf_modifyAt)
  qed
  have "set stack1 = set ?stack2 \<union>
      {parentRef @ [k] |k. k \<in> set js \<and> treeChildren (nodeAt ?t2 (parentRef @ [k])) \<noteq> []}"
    using ih by blast
  then have stack: "set stack1 = set stack \<union>
      {parentRef @ [k] |k. k \<in> set (j # js) \<and> treeChildren (nodeAt t (parentRef @ [k])) \<noteq> []}"
    by auto
  show ?case
    using valid len par stack by blast
qed

definition positioned :: "TreeNode \<Rightarrow> nat list list \<Rightarrow> bool" where
  "positioned t stack =
     (parent (fieldsOf t) = None
      \<and> (\<forall>path. validPath t path \<and> path \<noteq> [] \<longrightarrow>
            parent (fieldsOf (nodeAt t path)) \<noteq> None \<or> (\<exists>ref\<in>set stack. strict_prefix ref path)))"

lemma positioned_assignStep:
  assumes "assignStep t parentRef rest = (t1, stack1)" and "positioned t (parentRef # rest)"
  shows "positioned t1 stack1"
proof -
  let ?n = "length (treeChildren (nodeAt t parentRef))"
  have "fold (assignChild (map_option (\<lambda>d. d + 1) (depth (fieldsOf (nodeAt t parentRef)))) parentRef)
          [0..<?n] (t, rest) = (t1, stack1)"
    using assms(1) by (simp add: assignStep_def Let_def)
  note effect = fold_assignChild_effect [OF this]
  have valid: "validPath t1 path = validPath t path" for path
    using effect by simp
  have par: "parent (fieldsOf (nodeAt t1 path))
      = (if \<exists>j<?n. path = parentRef @ [j] then Some parentRef else parent (fieldsOf (nodeAt t path)))"
    if "validPath t path" for path
    using effect that by auto
  have stack: "set stack1 = set rest \<union>
      {parentRef @ [j] |j. j < ?n \<and> treeChildren (nodeAt t (parentRef @ [j])) \<noteq> []}"
    using effect by simp
  have top: "parent (fieldsOf t1) = None"
    using par [of "[]"] assms(2) by (simp add: positioned_def)
  have below: "parent (fieldsOf (nodeAt t1 path)) \<noteq> None \<or> (\<exists>ref\<in>set stack1. strict_prefix ref path)"
    if v: "validPath t1 path" and ne: "path \<noteq> []" for path
  proof -
    have v0: "validPath t path" using v valid by simp
    from assms(2) v0 ne
    consider "parent (fieldsOf (nodeAt t path)) \<noteq> None"
      | ref where "ref \<in> set rest" "strict_prefix ref path"
      | "strict_prefix parentRef path"
      by (auto simp: positioned_def)
    then show ?thesis
    proof cases
      case 1
      then show ?thesis using par [OF v0] by simp
    next
      case 2
      then show ?thesis using stack by blast
    next
      case 3
      then obtain j more where path: "path = parentRef @ j # more"
        by (rule strict_prefixE')
      then have vj: "validPath t (parentRef @ [j])" and vm: "validPath (nodeAt t (parentRef @ [j])) more"
        using v0 validPath_append [of t "parentRef @ [j]" more] by simp_all
      then have j: "j < ?n"
        by (simp add: validPath_snoc)
      show ?thesis
      proof (cases more)
        case Nil
        then show ?thesis using par [OF v0] path j by auto
      next
        case (Cons k more')
        then have "treeChildren (nodeAt t (parentRef @ [j])) \<noteq> []"
          using vm by (cases "nodeAt t (parentRef @ [j])") auto
        then have "parentRef @ [j] \<in> set stack1"
          using stack j by blast
        moreover have "strict_prefix (parentRef @ [j]) path"
          using path Cons by (simp add: strict_prefix_def prefix_def)
        ultimately show ?thesis by blast
      qed
    qed
  qed
  show ?thesis
    using top below by (simp add: positioned_def)
qed

lemma positioned_assignLoop: "positioned t stack \<Longrightarrow> positioned (assignLoop t stack) []"
proof (induction t stack rule: assignLoop.induct)
  case (1 t stack)
  show ?case
  proof (cases stack)
    case Nil
    then show ?thesis using "1.prems" by (simp add: assignLoop.simps)
  next
    case (Cons parentRef rest)
    obtain t1 stack1 where step: "assignStep t parentRef rest = (t1, stack1)"
      by (cases "assignStep t parentRef rest")
    have "assignLoop t stack = assignLoop t1 stack1"
      using Cons step by (subst assignLoop.simps) simp
    moreover have "positioned t1 stack1"
      using step "1.prems" unfolding Cons by (rule positioned_assignStep)
    ultimately show ?thesis
      using "1.IH" [OF Cons step [symmetric]] by simp
  qed
qed

text \<open>
  A tree as \<open>translatedRoot\<close> returns it: the root has no parent, every other node has
  one, no node has a \<open>UID\<close>, and the call UID of every node is the one of its call
  frame.
\<close>

definition freshTree :: "TreeNode \<Rightarrow> bool" where
  "freshTree t =
     (\<forall>path. validPath t path \<longrightarrow>
        (parent (fieldsOf (nodeAt t path)) = None) = (path = [])
        \<and> UID (fieldsOf (nodeAt t path)) = None
        \<and> callUID (fieldsOf (nodeAt t path)) = makeCallUID (callFrame (fieldsOf (nodeAt t path))))"

lemma translatedRoot_freshTree:
  assumes "translatedRoot p = Some (p1, Inr t)"
  shows "freshTree t"
proof -
  let ?P = "\<lambda>d. UID d = None \<and> callUID d = makeCallUID (callFrame d)"
  let ?g = "\<lambda>d. d\<lparr>depth := Some (- 1), parent := None\<rparr>"
  from assms obtain originalRoot :: ProfileNode and cs built where
    loop: "translateLoop p (cloneWithoutChildren originalRoot)
       (rev (map (\<lambda>childId. ([], idToNodeMap p childId)) cs)) = Some (p1, Inr built)"
    and t: "t = assignLoop (updateFields ?g (sumTotal built)) [[]]"
    by (rule translatedRoot_Inr)
  have clone: "?P (fieldsOf (cloneWithoutChildren node))" for node :: ProfileNode
    by (simp add: cloneWithoutChildren_def newFields_def)
  have "treeAll ?P built"
    using loop
  proof (rule translateLoop_treeAll)
    show "?P (fieldsOf (cloneWithoutChildren node))" for node :: ProfileNode
      by (rule clone)
    show "?P (d\<lparr>selfTime := x\<rparr>)" if "?P d" for d x
      using that by simp
    show "treeAll ?P (cloneWithoutChildren originalRoot)"
      using clone [of originalRoot] by (simp add: cloneWithoutChildren_def)
  qed
  then have "treeAll ?P (sumTotal built)"
    by (subst treeAll_sumTotal) simp_all
  then have "treeAll ?P (mapFields forgetPosition (sumTotal built))"
    by (subst treeAll_mapFields) (simp_all add: forgetPosition_def)
  then have "treeAll ?P (mapFields forgetPosition t)"
    using forgetPosition_translatedRoot [OF t] by simp
  then have keys: "?P (fieldsOf (nodeAt t path))" for path
    using treeAll_nodeAt [of ?P "mapFields forgetPosition t" path]
    by (simp add: forgetPosition_def)
  have "strict_prefix [] path" if "path \<noteq> []" for path :: "nat list"
    using that by (simp add: strict_prefix_def)
  then have "positioned (updateFields ?g (sumTotal built)) [[]]"
    by (simp add: positioned_def updateFields_def)
  then have "positioned t []"
    unfolding t by (rule positioned_assignLoop)
  then show ?thesis
    using keys by (auto simp: freshTree_def positioned_def)
qed

section \<open>One visit of the traversal\<close>

definition uidAt :: "TreeNode \<Rightarrow> nat list \<Rightarrow> nat option" where
  "uidAt t path = UID (fieldsOf (nodeAt t path))"

definition keyAt :: "TreeNode \<Rightarrow> nat list \<Rightarrow> string" where
  "keyAt t path = callUID (fieldsOf (nodeAt t path))"

definition forgetUID :: "NodeFields \<Rightarrow> NodeFields" where
  "forgetUID d = d\<lparr>UID := None\<rparr>"

lemma sameFields:
  assumes "mapFields h a = mapFields h b"
  shows "validPath a path = validPath b path"
    and "length (treeChildren (nodeAt a path)) = length (treeChildren (nodeAt b path))"
    and "h (fieldsOf (nodeAt a path)) = h (fieldsOf (nodeAt b path))"
proof -
  show "validPath a path = validPath b path"
    using validPath_mapFields [of h a path] validPath_mapFields [of h b path] assms by simp
  show "length (treeChildren (nodeAt a path)) = length (treeChildren (nodeAt b path))"
    using length_children_mapFields [of h a path] length_children_mapFields [of h b path] assms
    by simp
  show "h (fieldsOf (nodeAt a path)) = h (fieldsOf (nodeAt b path))"
    using fieldsOf_mapFields [of h a path] fieldsOf_mapFields [of h b path] assms by simp
qed

lemma sameFields_forgetUID:
  assumes "mapFields forgetUID a = mapFields forgetUID b"
  shows "validPath a path = validPath b path"
    and "(treeChildren (nodeAt a path) = []) = (treeChildren (nodeAt b path) = [])"
    and "length (treeChildren (nodeAt a path)) = length (treeChildren (nodeAt b path))"
    and "keyAt a path = keyAt b path"
    and "parent (fieldsOf (nodeAt a path)) = parent (fieldsOf (nodeAt b path))"
    and "selfTime (fieldsOf (nodeAt a path)) = selfTime (fieldsOf (nodeAt b path))"
    and "totalTime (fieldsOf (nodeAt a path)) = totalTime (fieldsOf (nodeAt b path))"
    and "callFrame (fieldsOf (nodeAt a path)) = callFrame (fieldsOf (nodeAt b path))"
proof -
  note same = sameFields [OF assms, of path]
  show "validPath a path = validPath b path"
    and len: "length (treeChildren (nodeAt a path)) = length (treeChildren (nodeAt b path))"
    by (rule same)+
  show "(treeChildren (nodeAt a path) = []) = (treeChildren (nodeAt b path) = [])"
    using len by (simp only: length_0_conv [symmetric])
  have "forgetUID (fieldsOf (nodeAt a path)) = forgetUID (fieldsOf (nodeAt b path))"
    by (rule same)
  then have "f (forgetUID (fieldsOf (nodeAt a path))) = f (forgetUID (fieldsOf (nodeAt b path)))" for f :: "NodeFields \<Rightarrow> 'x"
    by simp
  from this [of callUID] this [of parent] this [of selfTime] this [of totalTime] this [of callFrame]
  show "keyAt a path = keyAt b path"
    and "parent (fieldsOf (nodeAt a path)) = parent (fieldsOf (nodeAt b path))"
    and "selfTime (fieldsOf (nodeAt a path)) = selfTime (fieldsOf (nodeAt b path))"
    and "totalTime (fieldsOf (nodeAt a path)) = totalTime (fieldsOf (nodeAt b path))"
    and "callFrame (fieldsOf (nodeAt a path)) = callFrame (fieldsOf (nodeAt b path))"
    by (simp_all add: forgetUID_def keyAt_def)
qed

definition setUID :: "nat \<Rightarrow> nat list \<Rightarrow> TreeNode \<Rightarrow> TreeNode" where
  "setUID u ref t = modifyAt (updateFields (\<lambda>d. d\<lparr>UID := Some u\<rparr>)) ref t"

lemma forgetUID_setUID: "mapFields forgetUID (setUID u ref t) = mapFields forgetUID t"
  unfolding setUID_def by (rule mapFields_modifyAt) (simp add: forgetUID_def)

lemma uidAt_setUID:
  "validPath t path \<Longrightarrow> uidAt (setUID u ref t) path = (if path = ref then Some u else uidAt t path)"
  by (simp add: uidAt_def setUID_def fieldsOf_modifyAt)

lemma visitNode_groups:
  "profileNodeGroups (visitNode parents ref s) =
     profileNodeGroups s @
       (if treeChildren (nodeAt (tree s) ref) = [] then []
        else [(parents @ [ref], map (\<lambda>j. ref @ [j]) [0..<length (treeChildren (nodeAt (tree s) ref))])])"
proof -
  let ?s1 = "recordNode parents ref (assignUID ref s)"
  have "profileNodeGroups ?s1 = profileNodeGroups s"
    by (simp add: recordNode_def assignUID_def Let_def split: option.splits)
  moreover have "tree ?s1 = tree (assignUID ref s)"
    by (simp add: recordNode_def Let_def split: option.splits)
  moreover have "length (treeChildren (nodeAt (tree (assignUID ref s)) ref))
      = length (treeChildren (nodeAt (tree s) ref))"
    by (simp add: assignUID_def)
  ultimately show ?thesis
    by (simp add: visitNode_def pushGroup_def Let_def)
qed

lemma visitNode_unvisited:
  assumes "uidAt (tree s) ref = None"
  shows "tree (visitNode parents ref s) = setUID (profileNodeUIDs s + 1) ref (tree s)"
    and "profileNodeUIDs (visitNode parents ref s) = profileNodeUIDs s + 1"
  using assms
  by (simp_all add: visitNode_def pushGroup_def recordNode_def assignUID_def Let_def uidAt_def
      setUID_def split: option.splits)

lemma visitNode_root:
  assumes "parent (fieldsOf (nodeAt (tree s) ref)) = None"
  shows "visitedProfileNodesForCallUID (visitNode parents ref s) = visitedProfileNodesForCallUID s"
    and "nodeInfos (visitNode parents ref s) = nodeInfos s"
proof -
  have "parent (fieldsOf (nodeAt (tree (assignUID ref s)) ref)) = None"
    using assms sameFields_forgetUID(5) [OF forgetUID_setUID, of "profileNodeUIDs s + 1" ref "tree s" ref]
    by (simp add: assignUID_def setUID_def)
  then show "visitedProfileNodesForCallUID (visitNode parents ref s) = visitedProfileNodesForCallUID s"
    and "nodeInfos (visitNode parents ref s) = nodeInfos s"
    by (simp_all add: visitNode_def pushGroup_def recordNode_def Let_def assignUID_def)
qed

section \<open>The nodes that wait for their visit\<close>

definition frontier :: "(nat list list \<times> nat list list) list \<Rightarrow> nat list list" where
  "frontier pending = concat (map snd pending)"

definition incomparable :: "nat list list \<Rightarrow> bool" where
  "incomparable refs = (\<forall>a\<in>set refs. \<forall>b\<in>set refs. prefix a b \<longrightarrow> a = b)"

definition childRefs :: "nat list \<Rightarrow> nat \<Rightarrow> nat list list" where
  "childRefs ref n = map (\<lambda>j. ref @ [j]) [0..<n]"

lemma set_childRefs: "set (childRefs ref n) = {ref @ [j] |j. j < n}"
  by (auto simp: childRefs_def)

lemma distinct_childRefs: "distinct (childRefs ref n)"
  by (simp add: childRefs_def distinct_map inj_on_def)

lemma set_strict_prefixes: "set (butlast (prefixes ref)) = {a. strict_prefix a ref}"
proof -
  define bs where "bs = butlast (prefixes ref)"
  have eq: "prefixes ref = bs @ [ref]"
    using append_butlast_last_id [of "prefixes ref"] by (simp add: bs_def)
  have "distinct (bs @ [ref])"
    using distinct_prefixes [of ref] by (simp only: eq)
  then have notin: "ref \<notin> set bs"
    by simp
  have "set (bs @ [ref]) = {a. prefix a ref}"
    using set_prefixes_eq [of ref] by (simp only: eq)
  then have "insert ref (set bs) = {a. prefix a ref}"
    by simp
  then have "set bs = {a. strict_prefix a ref}"
    using notin by (auto simp: strict_prefix_def)
  then show ?thesis
    by (simp add: bs_def)
qed

lemma butlast_prefixes_snoc: "butlast (prefixes (ref @ [j])) = butlast (prefixes ref) @ [ref]"
  using append_butlast_last_id [of "prefixes ref"] by simp

lemma frontier_step:
  assumes "distinct (ref # rest)" and "incomparable (ref # rest)"
  shows "distinct (rest @ childRefs ref n)"
    and "incomparable (rest @ childRefs ref n)"
proof -
  have inc: "a = b" if "a \<in> set (ref # rest)" "b \<in> set (ref # rest)" "prefix a b" for a b
    using assms(2) that unfolding incomparable_def by blast
  have notin: "ref @ [j] \<notin> set rest" for j
  proof
    assume "ref @ [j] \<in> set rest"
    then have "ref = ref @ [j]"
      by (intro inc) simp_all
    then show False by simp
  qed
  then show "distinct (rest @ childRefs ref n)"
    using assms(1) by (auto simp: distinct_childRefs set_childRefs)
  show "incomparable (rest @ childRefs ref n)"
    unfolding incomparable_def
  proof (intro ballI impI)
    fix a b
    assume a: "a \<in> set (rest @ childRefs ref n)" and b: "b \<in> set (rest @ childRefs ref n)"
      and ab: "prefix a b"
    consider "a \<in> set rest" "b \<in> set rest"
      | j where "a \<in> set rest" "b = ref @ [j]"
      | j where "a = ref @ [j]" "b \<in> set rest"
      | j k where "a = ref @ [j]" "b = ref @ [k]"
      using a b by (auto simp: set_childRefs)
    then show "a = b"
    proof cases
      case 1
      then show ?thesis
        using ab by (intro inc) simp_all
    next
      case 2
      then have "a = ref @ [j] \<or> prefix a ref"
        using ab by simp
      then show ?thesis
      proof
        assume "a = ref @ [j]"
        then show ?thesis using 2 by simp
      next
        assume "prefix a ref"
        then have "a = ref"
          using 2(1) by (intro inc) simp_all
        then show ?thesis using assms(1) 2(1) by simp
      qed
    next
      case 3
      have "prefix ref (ref @ [j])" by simp
      then have "prefix ref b"
        using ab 3(1) by (simp only: prefix_order.trans)
      then have "ref = b"
        using 3(2) by (intro inc) simp_all
      then show ?thesis using assms(1) 3(2) by simp
    next
      case 4
      then show ?thesis using ab by simp
    qed
  qed
qed

lemma frontier_covers_step:
  assumes "distinct (ref # rest)" and "incomparable (ref # rest)"
    and "\<And>j more. path = ref @ j # more \<Longrightarrow> j < n"
  shows "(\<exists>a\<in>set (rest @ childRefs ref n). prefix a path)
     = (path \<noteq> ref \<and> (\<exists>a\<in>set (ref # rest). prefix a path))"
proof
  have inc: "a = b" if "a \<in> set (ref # rest)" "b \<in> set (ref # rest)" "prefix a b" for a b
    using assms(2) that unfolding incomparable_def by blast
  assume "\<exists>a\<in>set (rest @ childRefs ref n). prefix a path"
  then obtain a where a: "a \<in> set (rest @ childRefs ref n)" and pre: "prefix a path"
    by blast
  show "path \<noteq> ref \<and> (\<exists>a\<in>set (ref # rest). prefix a path)"
  proof (cases "a \<in> set rest")
    case True
    have "path \<noteq> ref"
    proof
      assume "path = ref"
      then have "a = ref"
        using True pre by (intro inc) simp_all
      then show False using assms(1) True by simp
    qed
    then show ?thesis using True pre by auto
  next
    case False
    then obtain j where "a = ref @ [j]"
      using a by (auto simp: set_childRefs)
    then have "prefix (ref @ [j]) path"
      using pre by simp
    then have "prefix ref path" "path \<noteq> ref"
      by (auto simp: prefix_def)
    then show ?thesis by auto
  qed
next
  assume right: "path \<noteq> ref \<and> (\<exists>a\<in>set (ref # rest). prefix a path)"
  then obtain a where a: "a \<in> set (ref # rest)" and pre: "prefix a path"
    by blast
  show "\<exists>a\<in>set (rest @ childRefs ref n). prefix a path"
  proof (cases "a = ref")
    case False
    then show ?thesis using a pre by auto
  next
    case True
    then have "strict_prefix ref path"
      using pre right by (simp add: strict_prefix_def)
    then obtain j more where path: "path = ref @ j # more"
      by (rule strict_prefixE')
    then have "j < n" by (rule assms(3))
    then have "ref @ [j] \<in> set (childRefs ref n)"
      by (auto simp: set_childRefs)
    moreover have "prefix (ref @ [j]) path"
      using path by (simp add: prefix_def)
    ultimately show ?thesis by auto
  qed
qed

section \<open>The invariant of the traversal\<close>

lemma visitNode_record:
  assumes "uidAt (tree s) ref = None" and "validPath (tree s) ref"
    and "parent (fieldsOf (nodeAt (tree s) ref)) \<noteq> None"
  shows "visitedProfileNodesForCallUID (visitNode parents ref s) =
      (visitedProfileNodesForCallUID s)(keyAt (tree s) ref \<mapsto>
         insert (Some (profileNodeUIDs s + 1))
           (case visitedProfileNodesForCallUID s (keyAt (tree s) ref) of None \<Rightarrow> {} | Some vs \<Rightarrow> vs))"
    and "nodeInfos (visitNode parents ref s) =
      nodeInfos s @
        [\<lparr>ancestor = ref, focusNode = ref,
          totalAccountedFor =
            (case visitedProfileNodesForCallUID s (keyAt (tree s) ref) of
               None \<Rightarrow> False
             | Some vs \<Rightarrow> list_ex (\<lambda>a. uidAt (setUID (profileNodeUIDs s + 1) ref (tree s)) a \<in> vs) parents)\<rparr>]"
proof -
  let ?s1 = "assignUID ref s"
  have s1: "?s1 = s\<lparr>profileNodeUIDs := profileNodeUIDs s + 1,
                    tree := setUID (profileNodeUIDs s + 1) ref (tree s)\<rparr>"
    using assms(1) by (simp add: assignUID_def uidAt_def setUID_def)
  have node: "fieldsOf (nodeAt (tree ?s1) ref) = (fieldsOf (nodeAt (tree s) ref))\<lparr>UID := Some (profileNodeUIDs s + 1)\<rparr>"
    using assms(2) by (simp add: s1 setUID_def fieldsOf_modifyAt)
  have rest: "visitedProfileNodesForCallUID (visitNode parents ref s) = visitedProfileNodesForCallUID (recordNode parents ref ?s1)"
    "nodeInfos (visitNode parents ref s) = nodeInfos (recordNode parents ref ?s1)"
    by (simp_all add: visitNode_def pushGroup_def Let_def)
  show "visitedProfileNodesForCallUID (visitNode parents ref s) =
      (visitedProfileNodesForCallUID s)(keyAt (tree s) ref \<mapsto>
         insert (Some (profileNodeUIDs s + 1))
           (case visitedProfileNodesForCallUID s (keyAt (tree s) ref) of None \<Rightarrow> {} | Some vs \<Rightarrow> vs))"
    unfolding rest recordNode_def Let_def node
    using assms(3) by (simp add: s1 keyAt_def split: option.splits)
  show "nodeInfos (visitNode parents ref s) =
      nodeInfos s @
        [\<lparr>ancestor = ref, focusNode = ref,
          totalAccountedFor =
            (case visitedProfileNodesForCallUID s (keyAt (tree s) ref) of
               None \<Rightarrow> False
             | Some vs \<Rightarrow> list_ex (\<lambda>a. uidAt (setUID (profileNodeUIDs s + 1) ref (tree s)) a \<in> vs) parents)\<rparr>]"
    unfolding rest recordNode_def Let_def node
    using assms(3) by (simp add: s1 keyAt_def uidAt_def split: option.splits)
qed

definition visitedPaths :: "TreeNode \<Rightarrow> TreeNode \<Rightarrow> string \<Rightarrow> nat list set" where
  "visitedPaths t0 t k = {path. validPath t0 path \<and> path \<noteq> [] \<and> uidAt t path \<noteq> None \<and> keyAt t0 path = k}"

text \<open>
  \<open>t0\<close> is the tree the traversal started from, \<open>s\<close> its state and \<open>pending\<close> the
  groups that it has not read yet, the rest of the group it is reading first.
\<close>

definition invTree :: "TreeNode \<Rightarrow> Traversal \<Rightarrow> bool" where
  "invTree t0 s = (mapFields forgetUID (tree s) = mapFields forgetUID t0)"

definition invFrontier :: "TreeNode \<Rightarrow> Traversal \<Rightarrow> nat list list \<Rightarrow> bool" where
  "invFrontier t0 s refs =
     (distinct refs \<and> incomparable refs \<and> (\<forall>ref\<in>set refs. validPath t0 ref)
      \<and> (\<forall>path. validPath t0 path \<longrightarrow> (uidAt (tree s) path = None) = (\<exists>ref\<in>set refs. prefix ref path)))"

definition invChains :: "(nat list list \<times> nat list list) list \<Rightarrow> bool" where
  "invChains pending = (\<forall>(parents, refs)\<in>set pending. \<forall>ref\<in>set refs. parents = butlast (prefixes ref))"

definition invUIDs :: "TreeNode \<Rightarrow> Traversal \<Rightarrow> bool" where
  "invUIDs t0 s =
     ((\<forall>path u. validPath t0 path \<and> uidAt (tree s) path = Some u \<longrightarrow> u \<le> profileNodeUIDs s)
      \<and> (\<forall>path path'. validPath t0 path \<and> validPath t0 path' \<and> uidAt (tree s) path \<noteq> None
            \<and> uidAt (tree s) path = uidAt (tree s) path' \<longrightarrow> path = path'))"

definition invVisited :: "TreeNode \<Rightarrow> Traversal \<Rightarrow> bool" where
  "invVisited t0 s =
     (\<forall>k. visitedProfileNodesForCallUID s k =
        (if visitedPaths t0 (tree s) k = {} then None
         else Some (uidAt (tree s) ` visitedPaths t0 (tree s) k)))"

definition accounted :: "TreeNode \<Rightarrow> nat list \<Rightarrow> bool" where
  "accounted t path = (\<exists>ref. ref \<noteq> [] \<and> strict_prefix ref path \<and> keyAt t ref = keyAt t path)"

definition invInfos :: "TreeNode \<Rightarrow> Traversal \<Rightarrow> bool" where
  "invInfos t0 s =
     (map focusNode (nodeInfos s) = map ancestor (nodeInfos s)
      \<and> distinct (map ancestor (nodeInfos s))
      \<and> set (map ancestor (nodeInfos s)) = {path. validPath t0 path \<and> path \<noteq> [] \<and> uidAt (tree s) path \<noteq> None}
      \<and> (\<forall>e\<in>set (nodeInfos s). totalAccountedFor e = accounted t0 (ancestor e)))"

text \<open>An occurrence that is accounted for comes after one with its call UID.\<close>

definition invOrder :: "TreeNode \<Rightarrow> NodeInfo list \<Rightarrow> bool" where
  "invOrder t0 infos =
     (\<forall>i<length infos. totalAccountedFor (infos ! i) \<longrightarrow>
        keyAt t0 (ancestor (infos ! i)) \<in> keyAt t0 ` set (take i (map ancestor infos)))"

definition traversalInv :: "TreeNode \<Rightarrow> Traversal \<Rightarrow> (nat list list \<times> nat list list) list \<Rightarrow> bool" where
  "traversalInv t0 s pending =
     (invTree t0 s \<and> invFrontier t0 s (frontier pending) \<and> invChains pending
      \<and> invUIDs t0 s \<and> invVisited t0 s \<and> invInfos t0 s \<and> invOrder t0 (nodeInfos s))"

section \<open>A visit keeps the invariant\<close>

lemma validPath_prefix: "validPath t path \<Longrightarrow> prefix a path \<Longrightarrow> validPath t a"
  by (auto simp: prefix_def validPath_append)

lemma validPath_child_index:
  "validPath t path \<Longrightarrow> path = ref @ j # js \<Longrightarrow> j < length (treeChildren (nodeAt t ref))"
  using validPath_append [of t "ref @ [j]" js] by (simp add: validPath_snoc)

lemma strict_prefixes_visited:
  assumes "invFrontier t0 s (ref # rest)" and "strict_prefix a ref"
  shows "validPath t0 a \<and> uidAt (tree s) a \<noteq> None"
proof -
  have valid: "validPath t0 ref" and inc: "incomparable (ref # rest)"
    and cover: "\<And>path. validPath t0 path \<Longrightarrow>
          (uidAt (tree s) path = None) = (\<exists>b\<in>set (ref # rest). prefix b path)"
    using assms(1) unfolding invFrontier_def by (simp, blast, blast)
  have va: "validPath t0 a"
    using valid assms(2) by (auto intro: validPath_prefix simp: strict_prefix_def)
  have "\<not> (\<exists>b\<in>set (ref # rest). prefix b a)"
  proof
    assume "\<exists>b\<in>set (ref # rest). prefix b a"
    then obtain b where b: "b \<in> set (ref # rest)" and ba: "prefix b a"
      by blast
    then have "prefix b ref"
      using assms(2) by (auto simp: strict_prefix_def intro: prefix_order.trans)
    then have "b = ref"
      using inc b unfolding incomparable_def by auto
    then show False
      using ba assms(2) by (auto simp: strict_prefix_def)
  qed
  then show ?thesis
    using va cover [OF va] by simp
qed

lemma traversalInv_visitNode:
  assumes fresh: "freshTree t0"
    and inv: "traversalInv t0 s ((parents, ref # refs) # profileNodeGroups s)"
  shows "traversalInv t0 (visitNode parents ref s)
           ((parents, refs) # profileNodeGroups (visitNode parents ref s))"
proof -
  let ?s' = "visitNode parents ref s"
  let ?c = "profileNodeUIDs s"
  let ?rest = "refs @ frontier (profileNodeGroups s)"
  let ?n = "length (treeChildren (nodeAt t0 ref))"
  let ?U = "uidAt (tree s)"
  let ?U' = "uidAt (tree ?s')"
  have iTree: "invTree t0 s" and iFront: "invFrontier t0 s (ref # ?rest)"
    and iChains: "invChains ((parents, ref # refs) # profileNodeGroups s)"
    and iUIDs: "invUIDs t0 s" and iVisited: "invVisited t0 s" and iInfos: "invInfos t0 s"
    and iOrder: "invOrder t0 (nodeInfos s)"
    using inv by (simp_all add: traversalInv_def frontier_def)
  note same = sameFields_forgetUID [OF iTree [unfolded invTree_def]]
  have dist: "distinct (ref # ?rest)" and inc: "incomparable (ref # ?rest)"
    and valids: "\<And>a. a \<in> set (ref # ?rest) \<Longrightarrow> validPath t0 a"
    and cover: "\<And>path. validPath t0 path \<Longrightarrow> (?U path = None) = (\<exists>a\<in>set (ref # ?rest). prefix a path)"
    using iFront unfolding invFrontier_def by (blast, blast, blast, blast)
  have vref: "validPath t0 ref"
    using valids by simp
  have unvisited: "?U ref = None"
    using cover [OF vref] by auto
  have tree': "tree ?s' = setUID (?c + 1) ref (tree s)" and counter': "profileNodeUIDs ?s' = ?c + 1"
    using visitNode_unvisited [OF unvisited] by simp_all
  have U': "?U' path = (if path = ref then Some (?c + 1) else ?U path)" if "validPath t0 path" for path
    using that by (simp add: tree' uidAt_setUID same(1))
  have groups': "frontier ((parents, refs) # profileNodeGroups ?s') = ?rest @ childRefs ref ?n"
    by (simp add: visitNode_groups frontier_def childRefs_def same(2,3))
  have parents: "parents = butlast (prefixes ref)"
    using iChains by (simp add: invChains_def)
  have bound: "u \<le> ?c" if "validPath t0 path" "?U path = Some u" for path u
    using iUIDs that by (auto simp: invUIDs_def)
  have inj: "path = path'"
    if "validPath t0 path" "validPath t0 path'" "?U path \<noteq> None" "?U path = ?U path'" for path path'
    using iUIDs that unfolding invUIDs_def by blast
  have root: "(parent (fieldsOf (nodeAt (tree s) ref)) = None) = (ref = [])"
    using fresh vref by (simp add: same(5) freshTree_def)
  have prefixes_visited: "validPath t0 a \<and> ?U a \<noteq> None" if "strict_prefix a ref" for a
    using iFront that by (rule strict_prefixes_visited)

  have 1: "invTree t0 ?s'"
    using iTree by (simp add: invTree_def tree' forgetUID_setUID)

  have 2: "invFrontier t0 ?s' (?rest @ childRefs ref ?n)"
    unfolding invFrontier_def
  proof (intro conjI ballI allI impI)
    show "distinct (?rest @ childRefs ref ?n)" and "incomparable (?rest @ childRefs ref ?n)"
      using dist inc by (rule frontier_step)+
    show "validPath t0 a" if "a \<in> set (?rest @ childRefs ref ?n)" for a
      using that valids vref by (auto simp: set_childRefs validPath_snoc)
    show "(?U' path = None) = (\<exists>a\<in>set (?rest @ childRefs ref ?n). prefix a path)"
      if v: "validPath t0 path" for path
    proof -
      have "(\<exists>a\<in>set (?rest @ childRefs ref ?n). prefix a path)
          = (path \<noteq> ref \<and> (\<exists>a\<in>set (ref # ?rest). prefix a path))"
        using dist inc
      proof (rule frontier_covers_step)
        show "j < ?n" if "path = ref @ j # js" for j js
          using v that by (rule validPath_child_index)
      qed
      then show ?thesis
        using cover [OF v] U' [OF v] by auto
    qed
  qed

  have 3: "invChains ((parents, refs) # profileNodeGroups ?s')"
  proof -
    have "butlast (prefixes (ref @ [j])) = parents @ [ref]" for j
      by (simp only: butlast_prefixes_snoc parents)
    then have "invChains [(parents @ [ref], map (\<lambda>j. ref @ [j]) [0..<m])]" for m
      by (simp add: invChains_def del: prefixes_snoc)
    moreover have "invChains (xs @ ys) = (invChains xs \<and> invChains ys)" for xs ys
      by (auto simp: invChains_def)
    moreover have "invChains ((parents, refs) # profileNodeGroups s)"
      using iChains unfolding invChains_def by auto
    moreover have "invChains []"
      by (simp add: invChains_def)
    ultimately show ?thesis
      using append_Cons [of "(parents, refs)" "profileNodeGroups s"]
      by (simp only: visitNode_groups append_Cons [symmetric] split: if_split) simp
  qed

  have 4: "invUIDs t0 ?s'"
    unfolding invUIDs_def counter'
  proof (intro conjI allI impI)
    fix path u
    assume "validPath t0 path \<and> ?U' path = Some u"
    then show "u \<le> ?c + 1"
      using U' [of path] bound [of path u] by (auto split: if_splits)
  next
    fix path path'
    assume a: "validPath t0 path \<and> validPath t0 path' \<and> ?U' path \<noteq> None \<and> ?U' path = ?U' path'"
    then have v: "validPath t0 path" "validPath t0 path'"
      by simp_all
    show "path = path'"
    proof (cases "path = ref"; cases "path' = ref")
      assume "path = ref" "path' = ref"
      then show ?thesis by simp
    next
      assume "path = ref" "path' \<noteq> ref"
      then have "?U path' = Some (?c + 1)"
        using a U' [OF v(1)] U' [OF v(2)] by simp
      then show ?thesis
        using bound [OF v(2)] by fastforce
    next
      assume "path \<noteq> ref" "path' = ref"
      then have "?U path = Some (?c + 1)"
        using a U' [OF v(1)] U' [OF v(2)] by simp
      then show ?thesis
        using bound [OF v(1)] by fastforce
    next
      assume "path \<noteq> ref" "path' \<noteq> ref"
      then have eq: "?U' path = ?U path" "?U' path' = ?U path'"
        using U' [OF v(1)] U' [OF v(2)] by simp_all
      have "?U path \<noteq> None" "?U path = ?U path'"
        using a [unfolded eq] by blast+
      then show ?thesis
        by (rule inj [OF v])
    qed
  qed

  have paths': "visitedPaths t0 (tree ?s') k
      = visitedPaths t0 (tree s) k \<union> (if ref \<noteq> [] \<and> keyAt t0 ref = k then {ref} else {})" for k
    using vref unvisited U' by (auto simp: visitedPaths_def split: if_splits)
  have image': "?U' ` visitedPaths t0 (tree s) k = ?U ` visitedPaths t0 (tree s) k" for k
  proof (rule image_cong [OF refl])
    fix path
    assume "path \<in> visitedPaths t0 (tree s) k"
    then have "validPath t0 path" "path \<noteq> ref"
      using unvisited by (auto simp: visitedPaths_def)
    then show "?U' path = ?U path"
      using U' by simp
  qed
  have visited: "visitedProfileNodesForCallUID s k =
      (if visitedPaths t0 (tree s) k = {} then None else Some (?U ` visitedPaths t0 (tree s) k))" for k
    using iVisited by (simp add: invVisited_def)

  have 5: "invVisited t0 ?s'"
  proof (cases "ref = []")
    case True
    then have "visitedProfileNodesForCallUID ?s' = visitedProfileNodesForCallUID s"
      using root by (intro visitNode_root) simp
    moreover have "visitedPaths t0 (tree ?s') k = visitedPaths t0 (tree s) k" for k
      unfolding paths' using True by simp
    ultimately show ?thesis
      unfolding invVisited_def using visited by (simp add: image')
  next
    case False
    have "visitedProfileNodesForCallUID ?s' =
      (visitedProfileNodesForCallUID s)(keyAt t0 ref \<mapsto>
         insert (Some (?c + 1))
           (case visitedProfileNodesForCallUID s (keyAt t0 ref) of None \<Rightarrow> {} | Some vs \<Rightarrow> vs))"
      using visitNode_record(1) [OF unvisited, of parents] vref False root
      by (simp add: same(1,4))
    moreover have "?U' ref = Some (?c + 1)"
      using U' [OF vref] by simp
    ultimately show ?thesis
      unfolding invVisited_def
      using False visited by (auto simp: paths' image')
  qed

  have 6: "invInfos t0 ?s' \<and> invOrder t0 (nodeInfos ?s')"
  proof (cases "ref = []")
    case True
    then have "nodeInfos ?s' = nodeInfos s"
      using root by (intro visitNode_root) simp
    moreover have "{path. validPath t0 path \<and> path \<noteq> [] \<and> ?U' path \<noteq> None}
        = {path. validPath t0 path \<and> path \<noteq> [] \<and> ?U path \<noteq> None}"
      using True U' by auto
    ultimately show ?thesis
      using iInfos iOrder by (simp add: invInfos_def)
  next
    case False
    let ?k = "keyAt t0 ref"
    let ?flag = "case visitedProfileNodesForCallUID s ?k of
               None \<Rightarrow> False
             | Some vs \<Rightarrow> list_ex (\<lambda>a. uidAt (setUID (?c + 1) ref (tree s)) a \<in> vs) parents"
    have infos': "nodeInfos ?s' = nodeInfos s @ [\<lparr>ancestor = ref, focusNode = ref, totalAccountedFor = ?flag\<rparr>]"
      using visitNode_record(2) [OF unvisited, of parents] vref False root
      by (simp add: same(1,4))
    have member: "(a \<in> visitedPaths t0 (tree s) ?k) = (a \<noteq> [] \<and> keyAt t0 a = ?k)"
      if "strict_prefix a ref" for a
      using prefixes_visited [OF that] by (simp add: visitedPaths_def)
    have flag: "?flag = accounted t0 ref"
    proof (cases "visitedPaths t0 (tree s) ?k = {}")
      case True
      then have "\<not> accounted t0 ref"
        using member by (auto simp: accounted_def)
      then show ?thesis
        using True visited [of ?k] by simp
    next
      case nonempty: False
      have "(uidAt (setUID (?c + 1) ref (tree s)) a \<in> ?U ` visitedPaths t0 (tree s) ?k)
          = (a \<noteq> [] \<and> keyAt t0 a = ?k)" if sp: "strict_prefix a ref" for a
      proof -
        have va: "validPath t0 a" and ua: "?U a \<noteq> None"
          using prefixes_visited [OF sp] by simp_all
        have "a \<noteq> ref"
          using sp by (simp add: strict_prefix_def)
        then have "uidAt (setUID (?c + 1) ref (tree s)) a = ?U a"
          using va by (simp add: uidAt_setUID same(1))
        moreover have "(?U a \<in> ?U ` visitedPaths t0 (tree s) ?k) = (a \<in> visitedPaths t0 (tree s) ?k)"
        proof
          assume "?U a \<in> ?U ` visitedPaths t0 (tree s) ?k"
          then obtain b where b: "b \<in> visitedPaths t0 (tree s) ?k" and ab: "?U a = ?U b"
            by blast
          then have "validPath t0 b"
            by (simp add: visitedPaths_def)
          then have "a = b"
            using va ua ab by (intro inj)
          then show "a \<in> visitedPaths t0 (tree s) ?k"
            using b by simp
        qed simp
        ultimately show ?thesis
          using member [OF sp] by simp
      qed
      then have "list_ex (\<lambda>a. uidAt (setUID (?c + 1) ref (tree s)) a \<in> ?U ` visitedPaths t0 (tree s) ?k) parents
          = accounted t0 ref"
        unfolding list_ex_iff parents set_strict_prefixes accounted_def by auto
      then show ?thesis
        using nonempty visited [of ?k] by simp
    qed
    have old: "set (map ancestor (nodeInfos s)) = {path. validPath t0 path \<and> path \<noteq> [] \<and> ?U path \<noteq> None}"
      using iInfos by (simp add: invInfos_def)
    have "ref \<notin> set (map ancestor (nodeInfos s))"
      unfolding old using unvisited by simp
    moreover have "{path. validPath t0 path \<and> path \<noteq> [] \<and> ?U' path \<noteq> None}
        = insert ref {path. validPath t0 path \<and> path \<noteq> [] \<and> ?U path \<noteq> None}"
      using False vref U' by auto
    ultimately have infos: "invInfos t0 ?s'"
      using iInfos flag unfolding invInfos_def infos' by auto
    have "invOrder t0 (nodeInfos s @ [e])"
      if e: "ancestor e = ref" "totalAccountedFor e = accounted t0 ref" for e
      unfolding invOrder_def
    proof (intro allI impI)
      fix i
      assume i: "i < length (nodeInfos s @ [e])" and acc: "totalAccountedFor ((nodeInfos s @ [e]) ! i)"
      show "keyAt t0 (ancestor ((nodeInfos s @ [e]) ! i))
          \<in> keyAt t0 ` set (take i (map ancestor (nodeInfos s @ [e])))"
      proof (cases "i < length (nodeInfos s)")
        case True
        then show ?thesis
          using iOrder acc by (simp add: invOrder_def nth_append)
      next
        case False
        then have i_eq: "i = length (nodeInfos s)"
          using i by simp
        then have "accounted t0 ref"
          using acc e by simp
        then obtain a where a: "a \<noteq> []" "strict_prefix a ref" "keyAt t0 a = keyAt t0 ref"
          by (auto simp: accounted_def)
        then have "a \<in> set (map ancestor (nodeInfos s))"
          unfolding old using prefixes_visited [of a] by simp
        then have "keyAt t0 ref \<in> keyAt t0 ` set (map ancestor (nodeInfos s))"
          using a(3) by (metis imageI)
        then show ?thesis
          using e(1) by (simp add: i_eq)
      qed
    qed
    from this [of "\<lparr>ancestor = ref, focusNode = ref, totalAccountedFor = ?flag\<rparr>"]
    have "invOrder t0 (nodeInfos ?s')"
      unfolding infos' using flag by simp
    with infos show ?thesis ..
  qed

  show ?thesis
    unfolding traversalInv_def groups' using 1 2 3 4 5 6 by simp
qed

section \<open>The traversal as a whole\<close>

lemma traversalInv_groups [simp]:
  "traversalInv t0 (s\<lparr>profileNodeGroups := groups\<rparr>) pending = traversalInv t0 s pending"
  by (simp add: traversalInv_def invTree_def invFrontier_def invUIDs_def invVisited_def invInfos_def)

lemma traversalInv_empty_group:
  "traversalInv t0 s ((parents, []) # pending) = traversalInv t0 s pending"
  by (simp add: traversalInv_def frontier_def invChains_def)

lemma traversalInv_fold:
  assumes "freshTree t0"
  shows "traversalInv t0 s ((parents, refs) # profileNodeGroups s) \<Longrightarrow>
    traversalInv t0 (fold (visitNode parents) refs s)
      (profileNodeGroups (fold (visitNode parents) refs s))"
proof (induction refs arbitrary: s)
  case Nil
  then show ?case by (simp add: traversalInv_empty_group)
next
  case (Cons ref refs)
  have "traversalInv t0 (visitNode parents ref s)
          ((parents, refs) # profileNodeGroups (visitNode parents ref s))"
    using assms Cons.prems by (rule traversalInv_visitNode)
  then show ?case
    using Cons.IH by simp
qed

declare traverse.simps [simp del]

lemma traversalInv_traverse:
  assumes "freshTree t0"
  shows "traversalInv t0 s (profileNodeGroups s) \<Longrightarrow> traversalInv t0 (traverse s) []"
proof (induction s rule: traverse.induct)
  case (1 s)
  show ?case
  proof (cases "profileNodeGroups s")
    case Nil
    then have "traverse s = s"
      by (simp add: traverse.simps [of s])
    with "1.prems" Nil show ?thesis by simp
  next
    case (Cons group rest)
    obtain parents refs where group: "group = (parents, refs)"
      by (cases group)
    let ?s1 = "s\<lparr>profileNodeGroups := rest\<rparr>"
    let ?s2 = "fold (visitNode parents) refs ?s1"
    have "traversalInv t0 ?s1 ((parents, refs) # profileNodeGroups ?s1)"
      using "1.prems" Cons group by simp
    then have "traversalInv t0 ?s2 (profileNodeGroups ?s2)"
      by (rule traversalInv_fold [OF assms])
    then have "traversalInv t0 (traverse ?s2) []"
      using Cons group by (intro "1.IH") simp_all
    moreover have "traverse s = traverse ?s2"
      using Cons group by (simp add: traverse.simps [of s])
    ultimately show ?thesis by simp
  qed
qed

lemma traversalInv_initial:
  assumes "freshTree t"
  shows "traversalInv t
     \<lparr>tree = t, profileNodeUIDs = 0, profileNodeGroups = [([], [[]])],
      visitedProfileNodesForCallUID = Map.empty, nodeInfos = []\<rparr> [([], [[]])]"
proof -
  have none: "uidAt t path = None" if "validPath t path" for path
    using assms that by (simp add: freshTree_def uidAt_def)
  have "validPath t []"
    by (cases t) simp
  then show ?thesis
    using none
    by (auto simp: traversalInv_def invTree_def invFrontier_def invChains_def invUIDs_def
        invVisited_def invInfos_def invOrder_def visitedPaths_def frontier_def incomparable_def)
qed

text \<open>
  What \<open>remainingNodeInfos\<close> returns: one entry for each node of the tree but the
  root, the focus node being the ancestor; the entry is accounted for when a node
  above it, the root apart, has its call UID. The tree is the one of \<open>translatedRoot\<close>
  with UIDs.
\<close>

lemma remainingNodeInfos_entries:
  assumes "remainingNodeInfos p = Some (p1, Inr (infos, t))"
  obtains t0 where "translatedRoot p = Some (p1, Inr t0)" and "freshTree t0"
    and "mapFields forgetUID t = mapFields forgetUID t0"
    and "map focusNode infos = map ancestor infos"
    and "distinct (map ancestor infos)"
    and "set (map ancestor infos) = {path. validPath t0 path \<and> path \<noteq> []}"
    and "\<forall>e\<in>set infos. totalAccountedFor e = accounted t0 (ancestor e)"
    and "invOrder t0 infos"
proof -
  define s0 where "s0 t0 = \<lparr>tree = t0, profileNodeUIDs = 0, profileNodeGroups = [([], [[]])],
      visitedProfileNodesForCallUID = Map.empty, nodeInfos = []\<rparr>" for t0
  from assms obtain t0 where root: "translatedRoot p = Some (p1, Inr t0)"
    and infos: "infos = nodeInfos (traverse (s0 t0))" and t: "t = tree (traverse (s0 t0))"
    by (auto simp: remainingNodeInfos_def Let_def s0_def split: option.splits prod.splits sum.splits)
  have fresh: "freshTree t0"
    using root by (rule translatedRoot_freshTree)
  have "traversalInv t0 (s0 t0) (profileNodeGroups (s0 t0))"
    using traversalInv_initial [OF fresh] by (simp add: s0_def)
  then have "traversalInv t0 (traverse (s0 t0)) []"
    by (rule traversalInv_traverse [OF fresh])
  then have iTree: "invTree t0 (traverse (s0 t0))" and iFront: "invFrontier t0 (traverse (s0 t0)) []"
    and iInfos: "invInfos t0 (traverse (s0 t0))" and iOrder: "invOrder t0 infos"
    by (simp_all add: traversalInv_def frontier_def infos)
  have all: "uidAt (tree (traverse (s0 t0))) path \<noteq> None" if "validPath t0 path" for path
    using iFront that by (simp add: invFrontier_def)
  show ?thesis
  proof (rule that [OF root fresh])
    show "mapFields forgetUID t = mapFields forgetUID t0"
      using iTree by (simp add: invTree_def t)
    show "map focusNode infos = map ancestor infos" and "distinct (map ancestor infos)"
      and "\<forall>e\<in>set infos. totalAccountedFor e = accounted t0 (ancestor e)"
      using iInfos unfolding invInfos_def infos by blast+
    have "set (map ancestor infos)
        = {path. validPath t0 path \<and> path \<noteq> [] \<and> uidAt (tree (traverse (s0 t0))) path \<noteq> None}"
      using iInfos unfolding invInfos_def infos by blast
    also have "\<dots> = {path. validPath t0 path \<and> path \<noteq> []}"
      using all by blast
    finally show "set (map ancestor infos) = {path. validPath t0 path \<and> path \<noteq> []}" .
    show "invOrder t0 infos"
      by (rule iOrder)
  qed
qed

section \<open>The merge of the entries into bottom-up nodes\<close>

definition entryKey :: "TreeNode \<Rightarrow> NodeInfo \<Rightarrow> string" where
  "entryKey t e = keyAt t (ancestor e)"

definition recKey :: "TreeNode \<Rightarrow> string" where
  "recKey r = callUID (fieldsOf r)"

definition focusSelf :: "TreeNode \<Rightarrow> NodeInfo \<Rightarrow> jsnum" where
  "focusSelf t e = selfTime (fieldsOf (nodeAt t (focusNode e)))"

definition focusTotal :: "TreeNode \<Rightarrow> NodeInfo \<Rightarrow> jsnum" where
  "focusTotal t e = totalTime (fieldsOf (nodeAt t (focusNode e)))"

text \<open>What \<open>bottomUpNodes\<close> does to the bottom-up node of an entry that is not the first.\<close>

definition addTimes :: "TreeNode \<Rightarrow> NodeInfo \<Rightarrow> NodeFields \<Rightarrow> NodeFields" where
  "addTimes t e d =
     d\<lparr>selfTime := selfTime d + focusSelf t e,
       totalTime := (if \<not> totalAccountedFor e then totalTime d + focusTotal t e else totalTime d)\<rparr>"

lemma addTimes_fun:
  "addTimes t e =
     (\<lambda>d. d\<lparr>selfTime := selfTime d + selfTime (fieldsOf (nodeAt t (focusNode e))),
            totalTime := (if \<not> totalAccountedFor e
                          then totalTime d + totalTime (fieldsOf (nodeAt t (focusNode e)))
                          else totalTime d)\<rparr>)"
  by (rule ext) (simp add: addTimes_def focusSelf_def focusTotal_def)

lemma last_match:
  assumes "rev (filter (\<lambda>i. f (xs ! i) = k) [0..<length xs]) = i # rest"
  shows "i < length xs \<and> f (xs ! i) = k"
proof -
  have "i \<in> set (rev (filter (\<lambda>i. f (xs ! i) = k) [0..<length xs]))"
    unfolding assms by simp
  then show ?thesis by simp
qed

lemma no_match:
  "(rev (filter (\<lambda>i. f (xs ! i) = k) [0..<length xs]) = []) = (k \<notin> f ` set xs)"
proof -
  have "(k \<notin> f ` set xs) = (\<forall>i<length xs. f (xs ! i) \<noteq> k)"
    by (metis imageE image_eqI in_set_conv_nth)
  then show ?thesis
    by (auto simp: filter_empty_conv)
qed

lemma update_unique:
  assumes "distinct (map f xs)" and "i < length xs" and "f (xs ! i) = k"
  shows "xs[i := g (xs ! i)] = map (\<lambda>x. if f x = k then g x else x) xs"
proof (rule nth_equalityI)
  show "length (xs[i := g (xs ! i)]) = length (map (\<lambda>x. if f x = k then g x else x) xs)"
    by simp
  fix j
  assume "j < length (xs[i := g (xs ! i)])"
  then have j: "j < length xs"
    by simp
  have "f (xs ! j) \<noteq> k" if "j \<noteq> i"
    using assms j that nth_eq_iff_index_eq [of "map f xs" j i] by auto
  then show "xs[i := g (xs ! i)] ! j = map (\<lambda>x. if f x = k then g x else x) xs ! j"
    using j assms(2,3) by (cases "j = i") simp_all
qed

lemma mergeNodeInfo_eq:
  assumes "distinct (map recKey recs)" and "focusNode e = ancestor e"
  shows "mergeNodeInfo t e recs =
     (if entryKey t e \<in> recKey ` set recs
      then map (\<lambda>r. if recKey r = entryKey t e then updateFields (addTimes t e) r else r) recs
      else recs @ [clone (nodeAt t (ancestor e))])"
proof (cases "rev (filter (\<lambda>i. recKey (recs ! i) = entryKey t e) [0..<length recs])")
  case Nil
  then have "entryKey t e \<notin> recKey ` set recs"
    by (rule no_match [THEN iffD1])
  with Nil assms(2) show ?thesis
    by (simp add: mergeNodeInfo_def Let_def recKey_def entryKey_def keyAt_def)
next
  case (Cons i rest)
  then have i: "i < length recs" "recKey (recs ! i) = entryKey t e"
    using last_match [of recKey recs "entryKey t e" i rest] by simp_all
  then have "entryKey t e \<in> recKey ` set recs"
    by (metis imageI nth_mem)
  moreover have "mergeNodeInfo t e recs = recs[i := updateFields (addTimes t e) (recs ! i)]"
    using Cons
    by (simp add: mergeNodeInfo_def Let_def recKey_def entryKey_def keyAt_def addTimes_fun)
  ultimately show ?thesis
    using update_unique [OF assms(1) i, of "updateFields (addTimes t e)"] by simp
qed

text \<open>
  The bottom-up node of the entries of one call UID: the clone of the node of the
  first of them, to which the times of the others have been added one after the
  other, the total time only of those that are not accounted for.
\<close>

definition mergedRecord :: "TreeNode \<Rightarrow> NodeInfo \<Rightarrow> NodeInfo list \<Rightarrow> TreeNode" where
  "mergedRecord t e0 rest =
     updateFields
       (\<lambda>d. d\<lparr>selfTime := foldl (+) (selfTime d) (map (focusSelf t) rest),
              totalTime := foldl (+) (totalTime d)
                 (map (focusTotal t) (filter (\<lambda>e. \<not> totalAccountedFor e) rest))\<rparr>)
       (clone (nodeAt t (ancestor e0)))"

definition recordFor :: "TreeNode \<Rightarrow> NodeInfo list \<Rightarrow> string \<Rightarrow> TreeNode" where
  "recordFor t es k =
     (let same = filter (\<lambda>e. entryKey t e = k) es in mergedRecord t (hd same) (tl same))"

definition firstSeen :: "'a list \<Rightarrow> 'a list" where
  "firstSeen ks = rev (remdups (rev ks))"

lemma firstSeen_snoc:
  "firstSeen (ks @ [k]) = (if k \<in> set ks then firstSeen ks else firstSeen ks @ [k])"
  by (simp add: firstSeen_def)

lemma set_firstSeen [simp]: "set (firstSeen ks) = set ks"
  by (simp add: firstSeen_def)

lemma distinct_firstSeen [simp]: "distinct (firstSeen ks)"
  by (simp add: firstSeen_def)

lemma recKey_mergedRecord:
  "recKey (mergedRecord t e0 rest) = makeCallUID (callFrame (fieldsOf (nodeAt t (ancestor e0))))"
  by (simp add: recKey_def mergedRecord_def updateFields_def clone_def newFields_def)

lemma mergedRecord_Nil: "mergedRecord t e [] = clone (nodeAt t (ancestor e))"
  by (simp add: mergedRecord_def updateFields_def clone_def)

lemma mergedRecord_snoc:
  "mergedRecord t e0 (rest @ [e]) = updateFields (addTimes t e) (mergedRecord t e0 rest)"
  by (simp add: mergedRecord_def updateFields_def addTimes_def)

lemma recordFor_snoc:
  "recordFor t (es @ [e]) k =
     (if entryKey t e = k
      then (if k \<in> entryKey t ` set es
            then updateFields (addTimes t e) (recordFor t es k)
            else clone (nodeAt t (ancestor e)))
      else recordFor t es k)"
proof (cases "entryKey t e = k")
  case False
  then show ?thesis by (simp add: recordFor_def)
next
  case True
  show ?thesis
  proof (cases "filter (\<lambda>e. entryKey t e = k) es")
    case Nil
    then have "k \<notin> entryKey t ` set es"
      by (auto simp: filter_empty_conv)
    with Nil True show ?thesis
      by (simp add: recordFor_def mergedRecord_Nil)
  next
    case (Cons e0 rest)
    then have "e0 \<in> set (filter (\<lambda>e. entryKey t e = k) es)"
      by simp
    then have "k \<in> entryKey t ` set es"
      by auto
    with Cons True show ?thesis
      by (simp add: recordFor_def mergedRecord_snoc)
  qed
qed

lemma recKey_recordFor:
  assumes "\<forall>e\<in>set es. makeCallUID (callFrame (fieldsOf (nodeAt t (ancestor e)))) = entryKey t e"
    and "k \<in> entryKey t ` set es"
  shows "recKey (recordFor t es k) = k"
proof -
  obtain e0 rest where same: "filter (\<lambda>e. entryKey t e = k) es = e0 # rest"
    using assms(2) by (cases "filter (\<lambda>e. entryKey t e = k) es") (auto simp: filter_empty_conv)
  then have "e0 \<in> set (filter (\<lambda>e. entryKey t e = k) es)"
    by simp
  then have "e0 \<in> set es" "entryKey t e0 = k"
    by simp_all
  then show ?thesis
    using assms(1) same by (simp add: recordFor_def recKey_mergedRecord)
qed

lemma fold_mergeNodeInfo:
  assumes "\<forall>e\<in>set es. focusNode e = ancestor e"
    and "\<forall>e\<in>set es. makeCallUID (callFrame (fieldsOf (nodeAt t (ancestor e)))) = entryKey t e"
  shows "fold (mergeNodeInfo t) es [] = map (recordFor t es) (firstSeen (map (entryKey t) es))"
  using assms
proof (induction es rule: rev_induct)
  case Nil
  show ?case by (simp add: firstSeen_def)
next
  case (snoc e es)
  let ?ks = "firstSeen (map (entryKey t) es)"
  let ?recs = "map (recordFor t es) ?ks"
  have fresh: "\<forall>e\<in>set es. makeCallUID (callFrame (fieldsOf (nodeAt t (ancestor e)))) = entryKey t e"
    using snoc.prems(2) by simp
  have ih: "fold (mergeNodeInfo t) es [] = ?recs"
    using snoc.prems by (intro snoc.IH) simp_all
  have key: "recKey (recordFor t es k) = k" if "k \<in> set ?ks" for k
    using fresh that by (intro recKey_recordFor) simp_all
  have keys: "map recKey ?recs = ?ks"
  proof -
    have "map (\<lambda>k. recKey (recordFor t es k)) ?ks = ?ks"
      using key by (intro map_idI)
    then show ?thesis
      by (simp add: comp_def)
  qed
  have dist: "distinct (map recKey ?recs)"
    unfolding keys by simp
  have focus: "focusNode e = ancestor e"
    using snoc.prems(1) by simp
  have "set (map recKey ?recs) = entryKey t ` set es"
    unfolding keys by simp
  then have members: "(entryKey t e \<in> recKey ` set ?recs) = (entryKey t e \<in> entryKey t ` set es)"
    by (simp only: set_map)
  have step: "fold (mergeNodeInfo t) (es @ [e]) [] = mergeNodeInfo t e ?recs"
    using ih by simp
  show ?case
  proof (cases "entryKey t e \<in> entryKey t ` set es")
    case True
    have "mergeNodeInfo t e ?recs
        = map (\<lambda>r. if recKey r = entryKey t e then updateFields (addTimes t e) r else r) ?recs"
      using mergeNodeInfo_eq [OF dist focus, of t] members True by simp
    also have "\<dots> = map (recordFor t (es @ [e])) ?ks"
      using key True by (auto simp: recordFor_snoc)
    finally show ?thesis
      using True by (simp add: step firstSeen_snoc del: fold_append)
  next
    case False
    have "mergeNodeInfo t e ?recs = ?recs @ [clone (nodeAt t (ancestor e))]"
      using mergeNodeInfo_eq [OF dist focus, of t] members False by simp
    also have "\<dots> = map (recordFor t (es @ [e])) (?ks @ [entryKey t e])"
      using False by (auto simp: recordFor_snoc)
    finally show ?thesis
      using False by (simp add: step firstSeen_snoc del: fold_append)
  qed
qed

section \<open>The bottom-up nodes of a profile\<close>

lemma accounted_forgetUID:
  assumes "mapFields forgetUID t = mapFields forgetUID t0"
  shows "accounted t path = accounted t0 path"
  by (simp add: accounted_def sameFields_forgetUID(4) [OF assms])

lemma invOrder_forgetUID:
  assumes "mapFields forgetUID t = mapFields forgetUID t0"
  shows "invOrder t infos = invOrder t0 infos"
proof -
  have "keyAt t = keyAt t0"
    by (rule ext) (rule sameFields_forgetUID(4) [OF assms])
  then show ?thesis
    by (simp add: invOrder_def)
qed

text \<open>The entries of \<open>remainingNodeInfos\<close>, in terms of the tree that it returns.\<close>

lemma remainingNodeInfos_final:
  assumes "remainingNodeInfos p = Some (p1, Inr (infos, t))"
  shows "map focusNode infos = map ancestor infos"
    and "distinct (map ancestor infos)"
    and "set (map ancestor infos) = {path. validPath t path \<and> path \<noteq> []}"
    and "\<forall>e\<in>set infos. totalAccountedFor e = accounted t (ancestor e)"
    and "invOrder t infos"
    and "\<forall>path. validPath t path \<longrightarrow> keyAt t path = makeCallUID (callFrame (fieldsOf (nodeAt t path)))"
    and "\<exists>t0. translatedRoot p = Some (p1, Inr t0) \<and> mapFields forgetUID t = mapFields forgetUID t0"
proof -
  from assms obtain t0 where root: "translatedRoot p = Some (p1, Inr t0)" and fresh: "freshTree t0"
    and same: "mapFields forgetUID t = mapFields forgetUID t0"
    and focus: "map focusNode infos = map ancestor infos"
    and dist: "distinct (map ancestor infos)"
    and all: "set (map ancestor infos) = {path. validPath t0 path \<and> path \<noteq> []}"
    and flags: "\<forall>e\<in>set infos. totalAccountedFor e = accounted t0 (ancestor e)"
    and order: "invOrder t0 infos"
    by (rule remainingNodeInfos_entries)
  note fields = sameFields_forgetUID [OF same]
  show "map focusNode infos = map ancestor infos" and "distinct (map ancestor infos)"
    by (rule focus, rule dist)
  show "set (map ancestor infos) = {path. validPath t path \<and> path \<noteq> []}"
    unfolding all by (simp add: fields(1))
  show "\<forall>e\<in>set infos. totalAccountedFor e = accounted t (ancestor e)"
    using flags by (simp add: accounted_forgetUID [OF same])
  show "invOrder t infos"
    using order by (simp add: invOrder_forgetUID [OF same])
  show "\<forall>path. validPath t path \<longrightarrow> keyAt t path = makeCallUID (callFrame (fieldsOf (nodeAt t path)))"
  proof (intro allI impI)
    fix path
    assume "validPath t path"
    then have "validPath t0 path"
      by (simp add: fields(1))
    then have "keyAt t0 path = makeCallUID (callFrame (fieldsOf (nodeAt t0 path)))"
      using fresh by (simp add: freshTree_def keyAt_def)
    then show "keyAt t path = makeCallUID (callFrame (fieldsOf (nodeAt t path)))"
      by (simp only: fields(4,8))
  qed
  show "\<exists>t0. translatedRoot p = Some (p1, Inr t0) \<and> mapFields forgetUID t = mapFields forgetUID t0"
    using root same by blast
qed

lemma bottomUpNodes_records:
  assumes "remainingNodeInfos p = Some (p1, Inr (infos, t))"
  shows "bottomUpNodes p = Some (p1, Inr (map (recordFor t infos) (firstSeen (map (entryKey t) infos))))"
proof -
  note final = remainingNodeInfos_final [OF assms]
  have focus: "\<forall>e\<in>set infos. focusNode e = ancestor e"
    using final(1) by (simp only: map_eq_conv)
  have "\<forall>e\<in>set infos. validPath t (ancestor e)"
    using final(3) by auto
  then have "\<forall>e\<in>set infos. makeCallUID (callFrame (fieldsOf (nodeAt t (ancestor e)))) = entryKey t e"
    using final(6) by (simp add: entryKey_def)
  with focus have "fold (mergeNodeInfo t) infos [] = map (recordFor t infos) (firstSeen (map (entryKey t) infos))"
    by (rule fold_mergeNodeInfo)
  then show ?thesis
    using assms by (simp add: bottomUpNodes_def)
qed

lemma bottomUpNodes_Inr:
  assumes "bottomUpNodes p = Some (p1, Inr records)"
  obtains infos t where "remainingNodeInfos p = Some (p1, Inr (infos, t))"
    and "records = map (recordFor t infos) (firstSeen (map (entryKey t) infos))"
proof -
  from assms obtain infos t where rem: "remainingNodeInfos p = Some (p1, Inr (infos, t))"
    by (auto simp: bottomUpNodes_def split: option.splits sum.splits prod.splits)
  from bottomUpNodes_records [OF rem] assms
  have "records = map (recordFor t infos) (firstSeen (map (entryKey t) infos))"
    by simp
  with rem show ?thesis by (rule that)
qed

lemma recordFor_first:
  assumes "k \<in> entryKey t ` set infos"
  obtains us e0 vs where "infos = us @ e0 # vs" and "\<forall>u\<in>set us. entryKey t u \<noteq> k"
    and "entryKey t e0 = k"
    and "recordFor t infos k = mergedRecord t e0 (filter (\<lambda>e. entryKey t e = k) vs)"
proof -
  obtain e0 rest where same: "filter (\<lambda>e. entryKey t e = k) infos = e0 # rest"
    using assms by (cases "filter (\<lambda>e. entryKey t e = k) infos") (auto simp: filter_empty_conv)
  from same [unfolded filter_eq_Cons_iff]
  obtain us vs where "infos = us @ e0 # vs" "\<forall>u\<in>set us. entryKey t u \<noteq> k"
    "entryKey t e0 = k" "rest = filter (\<lambda>e. entryKey t e = k) vs"
    by blast
  moreover have "recordFor t infos k = mergedRecord t e0 rest"
    using same by (simp add: recordFor_def)
  ultimately show ?thesis
    using that by simp
qed

section \<open>Recursion and the bottom-up nodes\<close>

text \<open>The recursion scenario after the traversal: the entries and the tree with its UIDs.\<close>

definition recursiveInfos :: "NodeInfo list" where
  "recursiveInfos =
     [\<lparr>ancestor = [0], focusNode = [0], totalAccountedFor = False\<rparr>,
      \<lparr>ancestor = [0, 0], focusNode = [0, 0], totalAccountedFor = False\<rparr>,
      \<lparr>ancestor = [0, 0, 0], focusNode = [0, 0, 0], totalAccountedFor = True\<rparr>]"

definition recursiveVisited :: TreeNode where
  "recursiveVisited = setUID 4 [0, 0, 0] (setUID 3 [0, 0] (setUID 2 [0] (setUID 1 [] recursiveTree)))"

lemma remaining_recursiveProfile:
  "map_option snd (remainingNodeInfos recursiveProfile) = Some (Inr (recursiveInfos, recursiveVisited))"
  by code_simp

lemma bottomUp_recursiveProfile:
  "map_option (map_sum (\<lambda>e. e) (map recKey) \<circ> snd) (bottomUpNodes recursiveProfile)
     = Some (Inr [''A@7:3'', ''B@7:9''])"
  by code_simp

lemma first_entry_open:
  assumes "invOrder t infos" and "infos = us @ e0 # vs" and "\<forall>u\<in>set us. entryKey t u \<noteq> entryKey t e0"
  shows "\<not> totalAccountedFor e0"
proof
  assume flag: "totalAccountedFor e0"
  have "length us < length infos" and "infos ! length us = e0"
    and "take (length us) (map ancestor infos) = map ancestor us"
    using assms(2) by simp_all
  then have "keyAt t (ancestor e0) \<in> keyAt t ` set (map ancestor us)"
    using assms(1) flag unfolding invOrder_def by metis
  then show False
    using assms(3) by (auto simp: entryKey_def)
qed

lemma totalTime_mergedRecord:
  "totalTime (fieldsOf (mergedRecord t e0 rest))
     = foldl (+) (totalTime (fieldsOf (nodeAt t (ancestor e0))))
         (map (focusTotal t) (filter (\<lambda>e. \<not> totalAccountedFor e) rest))"
  by (simp add: mergedRecord_def updateFields_def clone_def)

lemma selfTime_mergedRecord:
  "selfTime (fieldsOf (mergedRecord t e0 rest))
     = foldl (+) (selfTime (fieldsOf (nodeAt t (ancestor e0)))) (map (focusSelf t) rest)"
  by (simp add: mergedRecord_def updateFields_def clone_def)

lemma callFrame_mergedRecord:
  "callFrame (fieldsOf (mergedRecord t e0 rest)) = callFrame (fieldsOf (nodeAt t (ancestor e0)))"
  by (simp add: mergedRecord_def updateFields_def clone_def newFields_def)

text \<open>
  When all the nodes of a call UID, the root apart, are at or below one of them, only
  the entry of that node is not accounted for, and it is the first of the call UID.
\<close>

lemma outermost_entry:
  assumes rem: "remainingNodeInfos p = Some (p1, Inr (infos, t))"
    and path: "validPath t path" "path \<noteq> []"
    and below: "\<forall>q. validPath t q \<and> q \<noteq> [] \<and> keyAt t q = keyAt t path \<longrightarrow> prefix path q"
  shows "totalTime (fieldsOf (recordFor t infos (keyAt t path))) = totalTime (fieldsOf (nodeAt t path))"
proof -
  note final = remainingNodeInfos_final [OF rem]
  let ?k = "keyAt t path"
  have "path \<in> set (map ancestor infos)"
    unfolding final(3) using path by simp
  then have "?k \<in> entryKey t ` set infos"
    by (auto simp: entryKey_def)
  then obtain us e0 vs where infos: "infos = us @ e0 # vs"
    and us: "\<forall>u\<in>set us. entryKey t u \<noteq> ?k" and e0: "entryKey t e0 = ?k"
    and merged: "recordFor t infos ?k = mergedRecord t e0 (filter (\<lambda>e. entryKey t e = ?k) vs)"
    by (rule recordFor_first)
  have occurrence: "validPath t (ancestor e) \<and> ancestor e \<noteq> [] \<and> prefix path (ancestor e)"
    if "e \<in> set infos" "entryKey t e = ?k" for e
  proof -
    have "ancestor e \<in> set (map ancestor infos)"
      using that(1) by simp
    then have "validPath t (ancestor e) \<and> ancestor e \<noteq> []"
      unfolding final(3) by simp
    then show ?thesis
      using below that(2) by (simp add: entryKey_def)
  qed
  have flagged: "totalAccountedFor e" if "e \<in> set infos" "entryKey t e = ?k" "ancestor e \<noteq> path" for e
  proof -
    have "strict_prefix path (ancestor e)"
      using occurrence [OF that(1,2)] that(3) by (simp add: strict_prefix_def)
    then have "accounted t (ancestor e)"
      using path(2) that(2) unfolding accounted_def entryKey_def by metis
    then show ?thesis
      using final(4) that(1) by simp
  qed
  have "\<not> totalAccountedFor e0"
    using final(5) infos us unfolding e0 [symmetric] by (rule first_entry_open)
  then have first: "ancestor e0 = path"
    using flagged [of e0] e0 infos by auto
  have "totalAccountedFor e" if "e \<in> set vs" "entryKey t e = ?k" for e
  proof -
    have "ancestor e0 \<notin> ancestor ` set vs"
      using final(2) unfolding infos by simp
    then have "ancestor e \<noteq> ancestor e0"
      using that(1) by (metis imageI)
    then show ?thesis
      using flagged [of e] that infos first by simp
  qed
  then have "filter (\<lambda>e. \<not> totalAccountedFor e) (filter (\<lambda>e. entryKey t e = ?k) vs) = []"
    by (auto simp: filter_empty_conv)
  then show ?thesis
    unfolding merged totalTime_mergedRecord first by simp
qed


lemma recursiveVisited_outer:
  "keyAt recursiveVisited [0] = ''A@7:3'' \<and> totalTime (fieldsOf (nodeAt recursiveVisited [0])) = Number 2"
  by code_simp

lemma recursiveInfos_keys:
  "firstSeen (map (entryKey recursiveVisited) recursiveInfos) = [''A@7:3'', ''B@7:9'']"
  by code_simp

lemma validPath_setUID: "validPath (setUID u ref t) path = validPath t path"
  unfolding setUID_def by (rule validPath_modifyAt)

lemma validPath_recursiveVisited_eq: "validPath recursiveVisited q = validPath recursiveTree q"
  by (simp only: recursiveVisited_def validPath_setUID)

lemma validPath_recursiveVisited:
  assumes "validPath recursiveVisited q" and "q \<noteq> []"
  shows "prefix [0] q"
proof -
  have valid: "validPath recursiveTree q"
    using assms(1) by (simp only: validPath_recursiveVisited_eq)
  obtain j qs where q: "q = j # qs"
    using assms(2) by (cases q) auto
  with valid have "j = 0"
    by (simp add: recursiveTree_def treeNode_def)
  with q show ?thesis by simp
qed


lemma recKey_records:
  assumes "\<forall>e\<in>set es. makeCallUID (callFrame (fieldsOf (nodeAt t (ancestor e)))) = entryKey t e"
  shows "map recKey (map (recordFor t es) (firstSeen (map (entryKey t) es)))
     = firstSeen (map (entryKey t) es)"
proof -
  have "recKey (recordFor t es k) = k" if "k \<in> set (firstSeen (map (entryKey t) es))" for k
    using assms that by (intro recKey_recordFor) simp_all
  then have "map (\<lambda>k. recKey (recordFor t es k)) (firstSeen (map (entryKey t) es))
      = firstSeen (map (entryKey t) es)"
    by (intro map_idI)
  then show ?thesis
    by (simp add: comp_def)
qed

text \<open>
  C2. \<open>bottomUpNodes\<close> returns one bottom-up node for each call UID of a node of the
  translated tree other than the root: the call UIDs of the bottom-up nodes are
  distinct, they are the call UIDs of the nodes below the root, and they come in the
  order in which the traversal first met them. The traversal has one entry for each
  node below the root and none for the root.
\<close>

theorem one_record_per_call_site:
  assumes "bottomUpNodes p = Some (p1, Inr records)"
  shows "\<exists>infos t t0.
      translatedRoot p = Some (p1, Inr t0) \<and> mapFields forgetUID t = mapFields forgetUID t0
      \<and> remainingNodeInfos p = Some (p1, Inr (infos, t))
      \<and> distinct (map ancestor infos)
      \<and> set (map ancestor infos) = {path. validPath t0 path \<and> path \<noteq> []}
      \<and> map recKey records = firstSeen (map (\<lambda>e. keyAt t0 (ancestor e)) infos)
      \<and> distinct (map recKey records)
      \<and> set (map recKey records) = keyAt t0 ` {path. validPath t0 path \<and> path \<noteq> []}"
proof -
  from assms obtain infos t where rem: "remainingNodeInfos p = Some (p1, Inr (infos, t))"
    and records: "records = map (recordFor t infos) (firstSeen (map (entryKey t) infos))"
    by (rule bottomUpNodes_Inr)
  note final = remainingNodeInfos_final [OF rem]
  from final(7) obtain t0 where root: "translatedRoot p = Some (p1, Inr t0)"
    and same: "mapFields forgetUID t = mapFields forgetUID t0"
    by blast
  note fields = sameFields_forgetUID [OF same]
  have key: "entryKey t = (\<lambda>e. keyAt t0 (ancestor e))"
    by (rule ext) (simp add: entryKey_def fields(4))
  have paths: "set (map ancestor infos) = {path. validPath t0 path \<and> path \<noteq> []}"
    unfolding final(3) by (simp add: fields(1))
  have "\<forall>e\<in>set infos. validPath t (ancestor e)"
    using final(3) by auto
  then have "\<forall>e\<in>set infos. makeCallUID (callFrame (fieldsOf (nodeAt t (ancestor e)))) = entryKey t e"
    using final(6) by (simp add: entryKey_def)
  then have keys: "map recKey records = firstSeen (map (entryKey t) infos)"
    unfolding records by (rule recKey_records)
  have "set (map recKey records) = keyAt t0 ` set (map ancestor infos)"
    unfolding keys key by (simp add: image_image)
  then have all: "set (map recKey records) = keyAt t0 ` {path. validPath t0 path \<and> path \<noteq> []}"
    unfolding paths .
  have dist: "distinct (map recKey records)"
    unfolding keys by simp
  show ?thesis
    using root same rem final(2) paths keys [unfolded key] dist all by blast
qed

theorem one_record_per_call_site_witness:
  "\<exists>p1 records. bottomUpNodes recursiveProfile = Some (p1, Inr records)
     \<and> map recKey records = [''A@7:3'', ''B@7:9'']
     \<and> distinct (map recKey records)
     \<and> set (map recKey records) = keyAt recursiveTree ` {path. validPath recursiveTree path \<and> path \<noteq> []}"
proof -
  obtain p1 records where bottomUp: "bottomUpNodes recursiveProfile = Some (p1, Inr records)"
    and keys: "map recKey records = [''A@7:3'', ''B@7:9'']"
    using bottomUp_recursiveProfile
    by (cases "bottomUpNodes recursiveProfile") (auto simp: map_sum_def split: sum.splits)
  from one_record_per_call_site [OF bottomUp] obtain t0 where
    root: "translatedRoot recursiveProfile = Some (p1, Inr t0)"
    and dist: "distinct (map recKey records)"
    and all: "set (map recKey records) = keyAt t0 ` {path. validPath t0 path \<and> path \<noteq> []}"
    by blast
  have "t0 = recursiveTree"
    using root translatedRoot_recursiveProfile by simp
  then have "set (map recKey records)
      = keyAt recursiveTree ` {path. validPath recursiveTree path \<and> path \<noteq> []}"
    using all by simp
  with bottomUp keys dist show ?thesis
    by (intro exI conjI)
qed

section \<open>Call frames and names of the translated tree\<close>

lemma built_treeAll:
  assumes "t = assignLoop (updateFields (\<lambda>d. d\<lparr>depth := Some (- 1), parent := None\<rparr>) (sumTotal built)) [[]]"
    and "\<And>d x. P (d\<lparr>totalTime := x\<rparr>) = P d"
    and "\<And>d. P (forgetPosition d) = P d"
  shows "treeAll P t = treeAll P built"
proof -
  have "treeAll P t = treeAll P (mapFields forgetPosition t)"
    by (subst treeAll_mapFields) (simp_all add: assms(3))
  also have "\<dots> = treeAll P (mapFields forgetPosition (sumTotal built))"
    using forgetPosition_translatedRoot [OF assms(1)] by simp
  also have "\<dots> = treeAll P (sumTotal built)"
    by (subst treeAll_mapFields) (simp_all add: assms(3))
  also have "\<dots> = treeAll P built"
    by (subst treeAll_sumTotal) (simp_all add: assms(2))
  finally show ?thesis .
qed

lemma defaultChildren_frames:
  "length (nodes (defaultChildren p i)) = length (nodes p)"
  "callFrame ` set (nodes (defaultChildren p i)) \<subseteq> callFrame ` set (nodes p)"
  "mapInRange (defaultChildren p i) = mapInRange p"
proof -
  show len: "length (nodes (defaultChildren p i)) = length (nodes p)"
    by (simp add: defaultChildren_def)
  show "mapInRange (defaultChildren p i) = mapInRange p"
    using len by (simp add: mapInRange_def defaultChildren_reads(4))
  show "callFrame ` set (nodes (defaultChildren p i)) \<subseteq> callFrame ` set (nodes p)"
  proof (cases "children (nodes p ! i) = None \<and> i < length (nodes p)")
    case True
    then have "set (nodes (defaultChildren p i))
        \<subseteq> insert ((nodes p ! i)\<lparr>children := Some []\<rparr>) (set (nodes p))"
      by (simp add: defaultChildren_def set_update_subset_insert)
    moreover have "callFrame ((nodes p ! i)\<lparr>children := Some []\<rparr>) \<in> callFrame ` set (nodes p)"
      using True by (simp add: image_iff) (metis nth_mem)
    ultimately show ?thesis
      by auto
  next
    case False
    then have "defaultChildren p i = p"
      by (auto simp: defaultChildren_def list_update_beyond)
    then show ?thesis by simp
  qed
qed

text \<open>The call frame of a node of the translated tree is that of a flat node.\<close>

lemma translateLoop_frames:
  assumes "translateLoop p t pairs = Some (p1, Inr t1)"
    and "mapInRange p" and "pairsInRange p pairs"
    and "callFrame ` set (nodes p) \<subseteq> F" and "treeAll (\<lambda>d. callFrame d \<in> F) t"
  shows "treeAll (\<lambda>d. callFrame d \<in> F) t1"
proof -
  let ?P = "\<lambda>d. callFrame d \<in> F"
  let ?I = "\<lambda>p t pairs. mapInRange p \<and> pairsInRange p pairs
              \<and> callFrame ` set (nodes p) \<subseteq> F \<and> treeAll ?P t"
  have "?I p1 t1 []"
    using assms(1)
  proof (rule translateLoop_invariant [where I = ?I])
    show "?I p t pairs"
      using assms(2-5) by simp
    show "?I p2 t2 pairs2"
      if inv: "?I p t ((parentNode, Some i) # rest)"
        and step: "translateStep p t parentNode i rest = (p2, t2, pairs2)"
      for p t parentNode i rest p2 t2 pairs2
    proof -
      have range: "i < length (nodes p)" and rest: "pairsInRange p rest"
        using inv by (auto simp: pairsInRange_def)
      have p2: "p2 = defaultChildren p i" and t2: "t2 = stepTree p t parentNode i"
        and pairs2: "pairs2 = rev (map (\<lambda>childId. (stepParent p t parentNode i, idToNodeMap p childId))
             (childIds (nodes p ! i))) @ rest"
        using step by (simp_all add: translateStep_eq)
      have "pairsInRange p pairs2"
        unfolding pairs2 using inv rest by (intro pairsInRange_children) simp_all
      then have 1: "pairsInRange p2 pairs2"
        by (simp add: pairsInRange_def p2 defaultChildren_frames(1))
      have 2: "mapInRange p2" and 3: "callFrame ` set (nodes p2) \<subseteq> F"
        using inv defaultChildren_frames(2) [of p i] by (auto simp: p2 defaultChildren_frames(3))
      have "callFrame (nodes p ! i) \<in> F"
        using inv range by (metis imageI nth_mem subsetD)
      then have child: "treeAll ?P (cloneWithoutChildren (nodes p ! i))"
        by (simp add: cloneWithoutChildren_def newFields_def)
      have "treeAll ?P (modifyAt (pushChild (cloneWithoutChildren (nodes p ! i))) parentNode t)"
        using inv by (intro treeAll_modifyAt treeAll_pushChild child) simp_all
      moreover have "treeAll ?P (modifyAt (updateFields (\<lambda>d. d\<lparr>selfTime := selfTime d + x\<rparr>)) parentNode t)" for x
        using inv by (intro treeAll_modifyAt treeAll_updateFields) simp_all
      ultimately have 4: "treeAll ?P t2"
        by (simp add: t2 stepTree_def)
      show ?thesis
        using 1 2 3 4 by simp
    qed
  qed
  then show ?thesis by simp
qed

lemma translatedRoot_frames:
  assumes "translatedRoot p = Some (p1, Inr t)" and "mapInRange p"
  shows "callFrame (fieldsOf (nodeAt t path)) \<in> callFrame ` set (nodes p)"
proof -
  let ?P = "\<lambda>d. callFrame d \<in> callFrame ` set (nodes p)"
  from assms(1) obtain originalRoot :: ProfileNode and others cs built where
    nodes: "nodes p = originalRoot # others"
    and loop: "translateLoop p (cloneWithoutChildren originalRoot)
       (rev (map (\<lambda>childId. ([], idToNodeMap p childId)) cs)) = Some (p1, Inr built)"
    and t: "t = assignLoop (updateFields (\<lambda>d. d\<lparr>depth := Some (- 1), parent := None\<rparr>) (sumTotal built)) [[]]"
    by (rule translatedRoot_Inr)
  have "pairsInRange p (rev (map (\<lambda>childId. ([], idToNodeMap p childId)) cs))"
    using pairsInRange_children [OF assms(2), of "[]" "[]" cs] by (simp add: pairsInRange_def)
  moreover have "treeAll ?P (cloneWithoutChildren originalRoot)"
    using nodes by (simp add: cloneWithoutChildren_def newFields_def)
  ultimately have "treeAll ?P built"
    using loop assms(2) by (intro translateLoop_frames [OF loop]) simp_all
  then have "treeAll ?P t"
    by (subst built_treeAll [OF t]) (simp_all add: forgetPosition_def)
  then show ?thesis
    by (rule treeAll_nodeAt)
qed

text \<open>A call UID has one function name, when the script id has no \<open>@\<close>.\<close>

lemma decimal_chars: "set (decimal n) \<subseteq> set ''0123456789''"
proof (induction n rule: decimal.induct)
  case (1 n)
  have "digit m \<in> set ''0123456789''" for m
    unfolding digit_def by (rule nth_mem) simp
  then show ?case
    using 1 by (subst decimal.simps) (auto simp del: decimal.simps)
qed

lemma toString_chars: "CHR ''@'' \<notin> set (toString i)"
  using decimal_chars [of "nat i"] decimal_chars [of "nat (- i)"]
  by (auto simp: toString_def simp del: decimal.simps)

lemma first_separator:
  "x \<notin> set xs \<Longrightarrow> x \<notin> set xs' \<Longrightarrow> xs @ x # ys = xs' @ x # ys' \<Longrightarrow> ys = ys'"
proof (induction xs arbitrary: xs')
  case Nil
  then show ?case by (cases xs') auto
next
  case (Cons a xs)
  then show ?case by (cases xs') auto
qed

lemma makeCallUID_name:
  assumes "makeCallUID a = makeCallUID b"
    and "CHR ''@'' \<notin> set (scriptId a)" and "CHR ''@'' \<notin> set (scriptId b)"
  shows "functionName a = functionName b"
proof -
  let ?r = "\<lambda>cf. scriptId cf @ '':'' @ toString (lineNumber cf)"
  have eq: "rev (?r a) @ CHR ''@'' # rev (functionName a) = rev (?r b) @ CHR ''@'' # rev (functionName b)"
    using arg_cong [OF assms(1), of rev] by (simp add: makeCallUID_def del: decimal.simps)
  have a: "CHR ''@'' \<notin> set (rev (?r a))" and b: "CHR ''@'' \<notin> set (rev (?r b))"
    using assms(2,3) toString_chars by (simp_all del: decimal.simps)
  have "rev (functionName a) = rev (functionName b)"
    using a b eq by (rule first_separator)
  then show ?thesis by simp
qed

lemma names_Profile_new:
  "map (\<lambda>node. functionName (callFrame node)) (nodes (Profile_new ns st en sm td))
     = map (\<lambda>node. if functionName (callFrame node) = [] then ''(anonymous function)''
                    else functionName (callFrame node)) ns"
  by (simp add: nodes_Profile_new comp_def cong: if_cong)

lemma scripts_Profile_new:
  "map (\<lambda>node. scriptId (callFrame node)) (nodes (Profile_new ns st en sm td))
     = map (\<lambda>node. scriptId (callFrame node)) ns"
  by (simp add: nodes_Profile_new comp_def cong: if_cong)

section \<open>Anonymous functions\<close>

text \<open>
  Two anonymous functions of one script and line: root (id 1, no hits) with the
  children id 2 (2 hits) and id 3 (3 hits), both without a name; 5000 between start
  and end.
\<close>

definition anonymousNodes :: "NodeObject list" where
  "anonymousNodes =
     [nodeObject 1 (frame ''(root)'' ''0'' [] (-1)) 0 [2, 3],
      nodeObject 2 (frame [] ''7'' ''a.js'' 3) 2 [],
      nodeObject 3 (frame [] ''7'' ''a.js'' 3) 3 []]"

definition anonymousProfile :: Profile where
  "anonymousProfile = Profile_createFromObject (profileObject anonymousNodes 0 5000)"

text \<open>
  A function without a name in the script \<open>x@y\<close> (id 2) and the function
  \<open>(anonymous function)@x\<close> of the script \<open>y\<close> (id 3), both at line 1.
\<close>

definition collisionNodes :: "NodeObject list" where
  "collisionNodes =
     [nodeObject 1 (frame ''(root)'' ''0'' [] (-1)) 0 [2, 3],
      nodeObject 2 (frame [] ''x@y'' ''a.js'' 1) 2 [],
      nodeObject 3 (frame ''(anonymous function)@x'' ''y'' ''b.js'' 1) 3 []]"

definition collisionProfile :: Profile where
  "collisionProfile = Profile_createFromObject (profileObject collisionNodes 0 5000)"

lemma formatted_anonymousProfile:
  "map_option snd (formattedBottomUpProfile anonymousProfile) =
     Some (Inr [\<lparr>fmt_functionName = ''(anonymous function)'', fmt_selfTime = Number 5, fmt_totalTime = Number 5\<rparr>])"
  by code_simp

lemma remaining_anonymousProfile:
  "map_option (map_sum (\<lambda>e. e) (\<lambda>(infos, t). (validPath t [0], functionName (callFrame (fieldsOf (nodeAt t [0])))))
       \<circ> snd) (remainingNodeInfos anonymousProfile)
     = Some (Inr (True, ''(anonymous function)''))"
  by code_simp

lemma formatted_collisionProfile:
  "map_option snd (formattedBottomUpProfile collisionProfile) =
     Some (Inr [\<lparr>fmt_functionName = ''(anonymous function)@x'', fmt_selfTime = Number 5, fmt_totalTime = Number 5\<rparr>])"
  by code_simp

lemma callUIDs_collisionProfile:
  "map callUID (nodes collisionProfile) = [''(root)@0:-1'', ''@x@y:1'', ''(anonymous function)@x@y:1'']"
  by code_simp

lemma names_collisionProfile:
  "map (\<lambda>node. functionName (callFrame node)) (nodes collisionProfile)
     = [''(root)'', ''(anonymous function)'', ''(anonymous function)@x'']"
  by code_simp

text \<open>
  C8 as the code has it. The constructor of the profile gives the placeholder name to
  the flat nodes without a name. The call UID of a node of the translated tree is
  made of the call frame of a flat node as the constructor left it, so of the
  placeholder name for a function without a name, and the bottom-up nodes have
  distinct call UIDs: the nodes of one call UID, as are the anonymous functions of
  one script and line, have one bottom-up node. Its call frame is that of a node of
  the tree with its call UID; when no script id contains \<open>@\<close>, its function name is
  that of all the nodes with its call UID.
\<close>

theorem anonymous_call_sites_collapse:
  assumes "bottomUpNodes (Profile_new ns st en sm td) = Some (p1, Inr records)"
  shows "map (\<lambda>node. functionName (callFrame node)) (nodes (Profile_new ns st en sm td))
           = map (\<lambda>node. if functionName (callFrame node) = [] then ''(anonymous function)''
                          else functionName (callFrame node)) ns
    \<and> (\<exists>infos t. remainingNodeInfos (Profile_new ns st en sm td) = Some (p1, Inr (infos, t))
         \<and> distinct (map recKey records)
         \<and> (\<forall>path. validPath t path \<and> path \<noteq> [] \<longrightarrow>
              callFrame (fieldsOf (nodeAt t path)) \<in> callFrame ` set (nodes (Profile_new ns st en sm td))
              \<and> keyAt t path = makeCallUID (callFrame (fieldsOf (nodeAt t path)))
              \<and> (\<exists>r\<in>set records. recKey r = keyAt t path
                   \<and> (\<exists>q. validPath t q \<and> q \<noteq> [] \<and> keyAt t q = keyAt t path
                          \<and> callFrame (fieldsOf r) = callFrame (fieldsOf (nodeAt t q)))
                   \<and> ((\<forall>node\<in>set ns. CHR ''@'' \<notin> set (scriptId (callFrame node)))
                        \<longrightarrow> functionName (callFrame (fieldsOf r))
                              = functionName (callFrame (fieldsOf (nodeAt t path)))))))"
proof -
  let ?p = "Profile_new ns st en sm td"
  from assms obtain infos t where rem: "remainingNodeInfos ?p = Some (p1, Inr (infos, t))"
    and records: "records = map (recordFor t infos) (firstSeen (map (entryKey t) infos))"
    by (rule bottomUpNodes_Inr)
  note final = remainingNodeInfos_final [OF rem]
  from final(7) obtain t0 where root: "translatedRoot ?p = Some (p1, Inr t0)"
    and same: "mapFields forgetUID t = mapFields forgetUID t0"
    by blast
  have frames: "callFrame (fieldsOf (nodeAt t path)) \<in> callFrame ` set (nodes ?p)" for path
    using translatedRoot_frames [OF root mapInRange_Profile_new, of path]
    by (simp only: sameFields_forgetUID(8) [OF same])
  have fresh: "\<forall>e\<in>set infos. makeCallUID (callFrame (fieldsOf (nodeAt t (ancestor e)))) = entryKey t e"
  proof
    fix e
    assume "e \<in> set infos"
    then have "ancestor e \<in> set (map ancestor infos)"
      by simp
    then have "validPath t (ancestor e)"
      unfolding final(3) by simp
    then show "makeCallUID (callFrame (fieldsOf (nodeAt t (ancestor e)))) = entryKey t e"
      using final(6) by (simp add: entryKey_def)
  qed
  have keys: "map recKey records = firstSeen (map (entryKey t) infos)"
    unfolding records using fresh by (rule recKey_records)
  have dist: "distinct (map recKey records)"
    unfolding keys by simp
  have scripts: "CHR ''@'' \<notin> set (scriptId (callFrame (fieldsOf (nodeAt t path))))"
    if "\<forall>node\<in>set ns. CHR ''@'' \<notin> set (scriptId (callFrame node))" for path
  proof -
    obtain node where node: "node \<in> set (nodes ?p)"
      and frame: "callFrame (fieldsOf (nodeAt t path)) = callFrame node"
      using frames [of path] by auto
    have "scriptId (callFrame node) \<in> set (map (\<lambda>node. scriptId (callFrame node)) (nodes ?p))"
      using node by simp
    then have "scriptId (callFrame node) \<in> set (map (\<lambda>node. scriptId (callFrame node)) ns)"
      by (simp only: scripts_Profile_new)
    then show ?thesis
      using that frame by auto
  qed
  have node: "callFrame (fieldsOf (nodeAt t path)) \<in> callFrame ` set (nodes ?p)
      \<and> keyAt t path = makeCallUID (callFrame (fieldsOf (nodeAt t path)))
      \<and> (\<exists>r\<in>set records. recKey r = keyAt t path
           \<and> (\<exists>q. validPath t q \<and> q \<noteq> [] \<and> keyAt t q = keyAt t path
                  \<and> callFrame (fieldsOf r) = callFrame (fieldsOf (nodeAt t q)))
           \<and> ((\<forall>node\<in>set ns. CHR ''@'' \<notin> set (scriptId (callFrame node)))
                \<longrightarrow> functionName (callFrame (fieldsOf r))
                      = functionName (callFrame (fieldsOf (nodeAt t path)))))"
    if path: "validPath t path \<and> path \<noteq> []" for path
  proof -
    let ?k = "keyAt t path"
    have key: "?k = makeCallUID (callFrame (fieldsOf (nodeAt t path)))"
      using final(6) path by simp
    have "path \<in> set (map ancestor infos)"
      unfolding final(3) using path by simp
    then have member: "?k \<in> entryKey t ` set infos"
      by (auto simp: entryKey_def)
    then obtain us e0 vs where infos: "infos = us @ e0 # vs" and e0: "entryKey t e0 = ?k"
      and merged: "recordFor t infos ?k = mergedRecord t e0 (filter (\<lambda>e. entryKey t e = ?k) vs)"
      by (rule recordFor_first)
    let ?r = "recordFor t infos ?k"
    let ?q = "ancestor e0"
    have r: "?r \<in> set records"
      unfolding records using member by simp
    have rkey: "recKey ?r = ?k"
      using fresh member by (rule recKey_recordFor)
    have "?q \<in> set (map ancestor infos)"
      unfolding infos by simp
    then have q: "validPath t ?q \<and> ?q \<noteq> []"
      unfolding final(3) by simp
    have qkey: "keyAt t ?q = ?k"
      using e0 by (simp add: entryKey_def)
    have rframe: "callFrame (fieldsOf ?r) = callFrame (fieldsOf (nodeAt t ?q))"
      unfolding merged by (rule callFrame_mergedRecord)
    have name: "functionName (callFrame (fieldsOf ?r)) = functionName (callFrame (fieldsOf (nodeAt t path)))"
      if clean: "\<forall>node\<in>set ns. CHR ''@'' \<notin> set (scriptId (callFrame node))"
    proof -
      have "makeCallUID (callFrame (fieldsOf (nodeAt t ?q))) = makeCallUID (callFrame (fieldsOf (nodeAt t path)))"
        using final(6) q qkey key by simp
      then have "functionName (callFrame (fieldsOf (nodeAt t ?q)))
          = functionName (callFrame (fieldsOf (nodeAt t path)))"
        using scripts [OF clean] scripts [OF clean] by (rule makeCallUID_name)
      then show ?thesis
        by (simp only: rframe)
    qed
    show ?thesis
      using frames [of path] key r rkey q qkey rframe name by blast
  qed
  show ?thesis
    using names_Profile_new [of ns st en sm td] rem dist node by blast
qed

theorem anonymous_call_sites_collapse_witness:
  "\<exists>p1 records r. bottomUpNodes anonymousProfile = Some (p1, Inr records)
     \<and> map (\<lambda>node. functionName (callFrame node)) (nodes anonymousProfile)
         = [''(root)'', ''(anonymous function)'', ''(anonymous function)'']
     \<and> distinct (map recKey records)
     \<and> r \<in> set records \<and> functionName (callFrame (fieldsOf r)) = ''(anonymous function)''"
proof -
  let ?ns = "map ProfileNode_createFromObject anonymousNodes"
  have profile: "anonymousProfile = Profile_new ?ns (Number 0) (Number 5000) [] []"
    by (simp add: anonymousProfile_def Profile_createFromObject_def profileObject_def)
  obtain p1 records where bottomUp: "bottomUpNodes anonymousProfile = Some (p1, Inr records)"
    using formatted_anonymousProfile
    by (cases "bottomUpNodes anonymousProfile")
      (auto simp: formattedBottomUpProfile_def split: sum.splits)
  note main = anonymous_call_sites_collapse [OF bottomUp [unfolded profile], folded profile]
  have clean: "\<forall>node\<in>set ?ns. CHR ''@'' \<notin> set (scriptId (callFrame node))"
    by (simp add: anonymousNodes_def nodeObject_def frame_def ProfileNode_createFromObject_def
        NodeFields.extend_def ProfileNode.fields_def newFields_def)
  have names: "map (\<lambda>node. functionName (callFrame node)) (nodes anonymousProfile)
      = [''(root)'', ''(anonymous function)'', ''(anonymous function)'']"
    using main
    by (simp add: anonymousNodes_def nodeObject_def frame_def ProfileNode_createFromObject_def
        NodeFields.extend_def ProfileNode.fields_def newFields_def)
  from main obtain infos t where rem: "remainingNodeInfos anonymousProfile = Some (p1, Inr (infos, t))"
    and dist: "distinct (map recKey records)"
    and node: "\<And>path. validPath t path \<and> path \<noteq> [] \<Longrightarrow>
          \<exists>r\<in>set records. (\<forall>node\<in>set ?ns. CHR ''@'' \<notin> set (scriptId (callFrame node)))
                \<longrightarrow> functionName (callFrame (fieldsOf r))
                      = functionName (callFrame (fieldsOf (nodeAt t path)))"
    by blast
  have "validPath t [0]" and "functionName (callFrame (fieldsOf (nodeAt t [0]))) = ''(anonymous function)''"
    using remaining_anonymousProfile rem by simp_all
  then obtain r where "r \<in> set records" "functionName (callFrame (fieldsOf r)) = ''(anonymous function)''"
    using node [of "[0]"] clean by auto
  with bottomUp names dist show ?thesis
    by (intro exI conjI)
qed

text \<open>
  C8 as the specification states it fails. The call UID of a flat node is made when
  the node is constructed, before the constructor of the profile names it: that of
  the flat node without a name is \<open>@x@y:1\<close>. And the one bottom-up node of
  \<open>collisionProfile\<close>, which takes the times of the function without a name, has the
  name \<open>(anonymous function)@x\<close>, not the placeholder name.
\<close>

theorem anonymous_name_counterexample:
  "map (\<lambda>obj. functionName (obj_callFrame obj)) collisionNodes = [''(root)'', [], ''(anonymous function)@x'']
   \<and> map callUID (nodes collisionProfile) = [''(root)@0:-1'', ''@x@y:1'', ''(anonymous function)@x@y:1'']
   \<and> map (\<lambda>node. functionName (callFrame node)) (nodes collisionProfile)
       = [''(root)'', ''(anonymous function)'', ''(anonymous function)@x'']
   \<and> map_option snd (formattedBottomUpProfile collisionProfile) =
       Some (Inr [\<lparr>fmt_functionName = ''(anonymous function)@x'', fmt_selfTime = Number 5,
                   fmt_totalTime = Number 5\<rparr>])"
proof -
  have "map (\<lambda>obj. functionName (obj_callFrame obj)) collisionNodes = [''(root)'', [], ''(anonymous function)@x'']"
    by (simp add: collisionNodes_def nodeObject_def frame_def)
  then show ?thesis
    using callUIDs_collisionProfile names_collisionProfile formatted_collisionProfile by simp
qed

end
